theory Spec2Isabelle
  imports Main
begin

section \<open>The stub repository of mountebank (src/models/stubRepository.js)\<close>

subsection \<open>JavaScript values\<close>

text \<open>
  Requests, predicates, response descriptors and responses are parsed JSON. An object
  is kept as the list of its own properties in the order \<open>Object.keys\<close> enumerates
  them (keys pairwise distinct); \<open>JUndefined\<close> is what \<open>shift\<close> gives on an empty
  array. Numbers carry no arithmetic here and are kept as integers.
\<close>

datatype json =
    JUndefined
  | JNull
  | JBool bool
  | JNum int
  | JStr string
  | JArr "json list"
  | JObj "(string \<times> json) list"

text \<open>
  The three kinds of failure that can leave the repository: the \<open>ValidationError\<close>
  of \<open>errors.ValidationError(message, { source: ... })\<close>, the \<open>TypeError\<close> the
  runtime throws for \<open>Object.keys(null)\<close>, and whatever a collaborator (an operator
  of the predicates module, the resolver) fails with.
\<close>

datatype error =
    ValidationError string json
  | TypeError string
  | OtherError string

fun typeof :: "json \<Rightarrow> string" where
  "typeof JUndefined = ''undefined''"
| "typeof JNull = ''object''"
| "typeof (JBool b) = ''boolean''"
| "typeof (JNum n) = ''number''"
| "typeof (JStr s) = ''string''"
| "typeof (JArr xs) = ''object''"
| "typeof (JObj kvs) = ''object''"

fun isArray :: "json \<Rightarrow> bool" where
  "isArray (JArr xs) = True"
| "isArray v = False"

subsection \<open>Array methods whose callback may throw\<close>

text \<open>
  \<open>Array.prototype.map\<close> and \<open>filter\<close> call the callback on the elements from
  left to right; an exception thrown by the callback ends the traversal and is the
  outcome of the whole call.
\<close>

fun mapE :: "('a \<Rightarrow> error + 'b) \<Rightarrow> 'a list \<Rightarrow> error + 'b list" where
  "mapE f [] = Inr []"
| "mapE f (x # xs) =
     (case f x of
        Inl e \<Rightarrow> Inl e
      | Inr y \<Rightarrow> (case mapE f xs of Inl e \<Rightarrow> Inl e | Inr ys \<Rightarrow> Inr (y # ys)))"

fun filterE :: "('a \<Rightarrow> error + bool) \<Rightarrow> 'a list \<Rightarrow> error + 'a list" where
  "filterE f [] = Inr []"
| "filterE f (x # xs) =
     (case f x of
        Inl e \<Rightarrow> Inl e
      | Inr keep \<Rightarrow>
          (case filterE f xs of
             Inl e \<Rightarrow> Inl e
           | Inr ys \<Rightarrow> Inr (if keep then x # ys else ys)))"

subsection \<open>Predicate evaluation\<close>

text \<open>
  \<open>trueForAll (obj, predicate)\<close> is
  \<open>Object.keys(obj).map(predicate).every(function (result) { return result; })\<close>:
  the callback runs on every key before the results are combined. The callbacks of
  the source read \<open>obj[key]\<close> at once, so the model hands them the property (key and
  value) instead of the key alone.
\<close>

definition trueForAll ::
  "(string \<times> json) list \<Rightarrow> (string \<times> json \<Rightarrow> error + bool) \<Rightarrow> error + bool" where
  "trueForAll obj predicate =
     (case mapE predicate obj of
        Inl e \<Rightarrow> Inl e
      | Inr results \<Rightarrow> Inr (list_all (\<lambda>result. result) results))"

lemma mapE_cong [fundef_cong]:
  "xs = ys \<Longrightarrow> (\<And>x. x \<in> set ys \<Longrightarrow> f x = g x) \<Longrightarrow> mapE f xs = mapE g ys"
  by (induction ys arbitrary: xs) (auto split: sum.splits)

lemma trueForAll_cong [fundef_cong]:
  "obj = obj' \<Longrightarrow> (\<And>p. p \<in> set obj' \<Longrightarrow> f p = g p) \<Longrightarrow> trueForAll obj f = trueForAll obj' g"
  unfolding trueForAll_def by (simp cong: mapE_cong)

text \<open>
  The module \<open>./predicates\<close> is a table from operator names to evaluators
  \<open>(fieldName, expected, request)\<close>; it is not part of the sources at hand and is a
  parameter of the model. An evaluator returns a truth value or throws.
  \<open>operators key = Some f\<close> stands for a truthy \<open>predicates[key]\<close>, however the
  lookup finds it (a property of the module or one it inherits), and \<open>None\<close> for a
  falsy one.
\<close>

type_synonym operator = "string \<Rightarrow> json \<Rightarrow> json \<Rightarrow> error + bool"
type_synonym operators = "string \<Rightarrow> operator option"

definition noPredicate :: "string \<Rightarrow> string" where
  "noPredicate key = ''no predicate '' @ [CHR 0x27] @ key @ [CHR 0x27]"

text \<open>
  \<open>matchesPredicate\<close>, lines 17 to 33. \<open>typeof null\<close> is \<open>'object'\<close> and \<open>null\<close> is
  no array, so \<open>null\<close> passes the guard and reaches \<open>Object.keys\<close>, which throws a
  \<open>TypeError\<close> for it.
\<close>

fun matchesPredicate :: "operators \<Rightarrow> string \<Rightarrow> json \<Rightarrow> json \<Rightarrow> error + bool" where
  "matchesPredicate operators fieldName predicate req =
     (if typeof predicate \<noteq> ''object'' \<or> isArray predicate
      then Inl (ValidationError ''predicate must be an object'' predicate)
      else (case predicate of
              JObj properties \<Rightarrow>
                trueForAll properties (\<lambda>(key, arg).
                  (case operators key of
                     Some operator \<Rightarrow> operator fieldName arg req
                   | None \<Rightarrow>
                       if typeof arg = ''object''
                       then matchesPredicate operators (fieldName @ ''.'' @ key) arg req
                       else Inl (ValidationError (noPredicate key) predicate)))
            | _ \<Rightarrow> Inl (TypeError ''Object.keys called on non-object'')))"

declare matchesPredicate.simps [simp del]

text \<open>
  The callback of lines 22 to 32 on its own, for a node \<open>predicate\<close> evaluated under
  \<open>fieldName\<close>: what one key of the node evaluates to.
\<close>

definition evaluateKey ::
  "operators \<Rightarrow> string \<Rightarrow> json \<Rightarrow> json \<Rightarrow> string \<times> json \<Rightarrow> error + bool" where
  "evaluateKey operators fieldName predicate req =
     (\<lambda>(key, arg).
        (case operators key of
           Some operator \<Rightarrow> operator fieldName arg req
         | None \<Rightarrow>
             if typeof arg = ''object''
             then matchesPredicate operators (fieldName @ ''.'' @ key) arg req
             else Inl (ValidationError (noPredicate key) predicate)))"

subsection \<open>Stubs and the repository\<close>

text \<open>
  A match record \<open>{ timestamp, request, response }\<close>, and a stub as \<open>addStub\<close>
  receives it: \<open>predicates\<close> may be absent, \<open>responses\<close> is an array of response
  descriptors, and \<open>matches\<close> is absent until the first match is recorded. The
  repository's \<open>stubs\<close> array is a list of stubs; every element is an object of its
  own (no stub and no \<open>responses\<close> array is shared between two positions), so a
  reference to a stub is its index.
\<close>

record match =
  timestamp :: string
  request :: json
  response :: json

record stub =
  predicates :: "(string \<times> json) list option"
  responses :: "json list"
  matches :: "match list option"

text \<open>
  The resolver is the object handed to \<open>create\<close>. Its
  \<open>resolve (stubResolver, request, logger, stubs)\<close> returns a promise; the model takes
  the way that promise settles, \<open>Inr\<close> the response or \<open>Inl\<close> the failure, and a
  resolver that reads the stubs without changing them. The logger only prints.
\<close>

type_synonym resolver = "json \<Rightarrow> json \<Rightarrow> stub list \<Rightarrow> error + json"

text \<open>The callback given to \<open>stubs.filter\<close>, lines 39 to 44.\<close>

definition stubMatches :: "operators \<Rightarrow> json \<Rightarrow> stub \<Rightarrow> error + bool" where
  "stubMatches operators req s =
     (let preds = (case predicates s of Some p \<Rightarrow> p | None \<Rightarrow> [])
      in trueForAll preds (\<lambda>(fieldName, p). matchesPredicate operators fieldName p req))"

text \<open>
  \<open>findFirstMatch\<close>, lines 35 to 53. \<open>None\<close> is \<open>undefined\<close>; a stub is returned
  with its index, which stands for the reference \<open>matches[0]\<close>.
\<close>

definition findFirstMatch ::
  "operators \<Rightarrow> stub list \<Rightarrow> json \<Rightarrow> error + (nat \<times> stub) option" where
  "findFirstMatch operators stubs req =
     (if length stubs = 0 then Inr None
      else (case filterE (\<lambda>(i, s). stubMatches operators req s) (enumerate 0 stubs) of
              Inl e \<Rightarrow> Inl e
            | Inr matched \<Rightarrow>
                if length matched = 0 then Inr None else Inr (Some (hd matched))))"

definition addStub :: "stub list \<Rightarrow> stub \<Rightarrow> stub list" where
  "addStub stubs s = stubs @ [s]"

text \<open>\<open>Array.prototype.shift\<close> (\<open>undefined\<close> on an empty array) and \<open>push\<close>.\<close>

definition shift :: "json list \<Rightarrow> json \<times> json list" where
  "shift xs = (case xs of [] \<Rightarrow> (JUndefined, []) | x # rest \<Rightarrow> (x, rest))"

definition push :: "'a list \<Rightarrow> 'a \<Rightarrow> 'a list" where
  "push xs x = xs @ [x]"

text \<open>The stub \<open>{ responses: [{ is: {} }] }\<close> of line 60.\<close>

definition implicitStub :: stub where
  "implicitStub =
     \<lparr>predicates = None, responses = [JObj [(''is'', JObj [])]], matches = None\<rparr>"

text \<open>
  A write through the reference held in the variable \<open>stub\<close>: into the repository
  when the stub was found there, nowhere when it is the implicit stub, which only
  the call itself holds.
\<close>

definition store :: "(nat \<times> stub) option \<Rightarrow> stub \<Rightarrow> stub list \<Rightarrow> stub list" where
  "store found s stubs = (case found of Some (i, old) \<Rightarrow> stubs[i := s] | None \<Rightarrow> stubs)"

text \<open>\<open>stub.matches || []\<close> of line 72.\<close>

definition matchesOrEmpty :: "stub \<Rightarrow> match list" where
  "matchesOrEmpty s = (case matches s of Some ms \<Rightarrow> ms | None \<Rightarrow> [])"

text \<open>
  What a call of \<open>resolve\<close> leaves behind: how the returned promise settles, the
  descriptor taken from the queue, the index of the selected stub (\<open>None\<close> for the
  implicit stub), the selected stub object and the repository's stubs after the call.
\<close>

record resolution =
  promise :: "error + json"
  stubResolver :: json
  selected :: "nat option"
  selectedStub :: stub
  repository :: "stub list"

text \<open>
  \<open>resolve\<close>, lines 59 to 78. \<open>Inl\<close> is an exception thrown by the call itself,
  before any promise exists. \<open>now\<close> is \<open>new Date().toJSON()\<close> as read in the
  callback. The resolver's promise settles before anything else touches the
  repository.
\<close>

definition resolve ::
  "resolver \<Rightarrow> operators \<Rightarrow> string \<Rightarrow> stub list \<Rightarrow> json \<Rightarrow> error + resolution" where
  "resolve resolver operators now stubs req =
     (case findFirstMatch operators stubs req of
        Inl e \<Rightarrow> Inl e
      | Inr found \<Rightarrow>
          (let s0 = (case found of Some (i, s) \<Rightarrow> s | None \<Rightarrow> implicitStub);
               (descriptor, rest) = shift (responses s0);
               s1 = s0\<lparr>responses := push rest descriptor\<rparr>;
               stubs1 = store found s1 stubs
           in (case resolver descriptor req stubs1 of
                 Inr resp \<Rightarrow>
                   (let m = \<lparr>timestamp = now, request = req, response = resp\<rparr>;
                        s2 = s1\<lparr>matches := Some (push (matchesOrEmpty s1) m)\<rparr>
                    in Inr \<lparr>promise = Inr resp, stubResolver = descriptor,
                            selected = map_option fst found, selectedStub = s2,
                            repository = store found s2 stubs1\<rparr>)
               | Inl failure \<Rightarrow>
                   Inr \<lparr>promise = Inl failure, stubResolver = descriptor,
                        selected = map_option fst found, selectedStub = s1,
                        repository = stubs1\<rparr>)))"

text \<open>
  Calls of \<open>resolve\<close> made one after the other, each with the clock reading of its
  callback and its request, each on the repository the call before left. An
  exception thrown by a call ends the sequence.
\<close>

fun resolveEach ::
  "resolver \<Rightarrow> operators \<Rightarrow> stub list \<Rightarrow> (string \<times> json) list \<Rightarrow>
   error + (resolution list \<times> stub list)" where
  "resolveEach resolver operators stubs [] = Inr ([], stubs)"
| "resolveEach resolver operators stubs ((now, req) # calls) =
     (case resolve resolver operators now stubs req of
        Inl e \<Rightarrow> Inl e
      | Inr r \<Rightarrow>
          (case resolveEach resolver operators (repository r) calls of
             Inl e \<Rightarrow> Inl e
           | Inr (rs, final) \<Rightarrow> Inr (r # rs, final)))"

subsection \<open>Malformed predicates\<close>

text \<open>
  A predicate node, evaluated under \<open>fieldName\<close> for the request, is malformed where
  evaluation meets it: it is no object (a primitive or an array); or it is an object
  with a key that names no operator and holds no object; or such a key holds an
  object that is malformed in turn under the extended field name. In the last two
  cases the keys before that key evaluate to truth values.
\<close>

inductive malformed :: "operators \<Rightarrow> json \<Rightarrow> string \<Rightarrow> json \<Rightarrow> bool"
  for operators req where
  notObject:
    "typeof node \<noteq> ''object'' \<or> isArray node \<Longrightarrow> malformed operators req fieldName node"
| bogusKey:
    "\<forall>p\<in>set before.
        \<exists>b. evaluateKey operators fieldName (JObj (before @ (key, arg) # after)) req p = Inr b \<Longrightarrow>
     operators key = None \<Longrightarrow> typeof arg \<noteq> ''object'' \<Longrightarrow>
     malformed operators req fieldName (JObj (before @ (key, arg) # after))"
| nestedNode:
    "\<forall>p\<in>set before.
        \<exists>b. evaluateKey operators fieldName (JObj (before @ (key, arg) # after)) req p = Inr b \<Longrightarrow>
     operators key = None \<Longrightarrow> typeof arg = ''object'' \<Longrightarrow>
     malformed operators req (fieldName @ ''.'' @ key) arg \<Longrightarrow>
     malformed operators req fieldName (JObj (before @ (key, arg) # after))"

subsection \<open>Calls in flight\<close>

text \<open>
  \<open>resolve\<close> runs in two parts. The first, lines 60 to 66, runs when it is called:
  it selects the stub, shifts and pushes its queue and calls the resolver, whose
  promise is pending from then on. The second is the callback of lines 66 to 75,
  run when that promise settles, after any number of other calls have started or
  settled. What the callback keeps of the first part: the stub it refers to (an
  index into the repository, or the implicit stub, which is the call's own object),
  the descriptor and the request.
\<close>

record call =
  callTarget :: "nat option"
  callStub :: stub
  callDescriptor :: json
  callRequest :: json

definition start :: "operators \<Rightarrow> stub list \<Rightarrow> json \<Rightarrow> error + (call \<times> stub list)" where
  "start operators stubs req =
     (case findFirstMatch operators stubs req of
        Inl e \<Rightarrow> Inl e
      | Inr found \<Rightarrow>
          (let s0 = (case found of Some (i, s) \<Rightarrow> s | None \<Rightarrow> implicitStub);
               (descriptor, rest) = shift (responses s0);
               s1 = s0\<lparr>responses := push rest descriptor\<rparr>
           in Inr (\<lparr>callTarget = map_option fst found, callStub = s1,
                      callDescriptor = descriptor, callRequest = req\<rparr>,
                   store found s1 stubs)))"

text \<open>
  The callback reads the stub through its reference, as it is when the promise
  settles. \<open>outcome\<close> is how the resolver's promise settled.
\<close>

definition settle :: "string \<Rightarrow> call \<Rightarrow> error + json \<Rightarrow> stub list \<Rightarrow> resolution" where
  "settle now c outcome stubs =
     (let current = (case callTarget c of Some i \<Rightarrow> stubs ! i | None \<Rightarrow> callStub c)
      in (case outcome of
            Inr resp \<Rightarrow>
              (let m = \<lparr>timestamp = now, request = callRequest c, response = resp\<rparr>;
                   s2 = current\<lparr>matches := Some (push (matchesOrEmpty current) m)\<rparr>
               in \<lparr>promise = Inr resp, stubResolver = callDescriptor c,
                    selected = callTarget c, selectedStub = s2,
                    repository =
                      (case callTarget c of Some i \<Rightarrow> stubs[i := s2] | None \<Rightarrow> stubs)\<rparr>)
          | Inl failure \<Rightarrow>
              \<lparr>promise = Inl failure, stubResolver = callDescriptor c,
               selected = callTarget c, selectedStub = current, repository = stubs\<rparr>))"

text \<open>
  What can happen to a repository, one event at a time, each event running to its
  end before the next: a request arrives and \<open>resolve\<close> is called; the promise of
  one of the pending calls settles (the call is named by its place among the pending
  ones) at some clock reading with some outcome; a stub is added. A call whose
  selection throws leaves nothing behind.
\<close>

datatype event =
    Start json
  | Settle nat string "error + json"
  | AddStub stub

record world =
  repo :: "stub list"
  pendingCalls :: "call list"
  startedCalls :: "call list"

fun step :: "operators \<Rightarrow> world \<Rightarrow> event \<Rightarrow> world" where
  "step operators w (Start req) =
     (case start operators (repo w) req of
        Inl e \<Rightarrow> w
      | Inr (c, stubs1) \<Rightarrow>
          \<lparr>repo = stubs1, pendingCalls = pendingCalls w @ [c],
           startedCalls = startedCalls w @ [c]\<rparr>)"
| "step operators w (Settle n now outcome) =
     (if n < length (pendingCalls w)
      then w\<lparr>repo := repository (settle now (pendingCalls w ! n) outcome (repo w)),
             pendingCalls := take n (pendingCalls w) @ drop (Suc n) (pendingCalls w)\<rparr>
      else w)"
| "step operators w (AddStub s) = w\<lparr>repo := addStub (repo w) s\<rparr>"

definition run :: "operators \<Rightarrow> world \<Rightarrow> event list \<Rightarrow> world" where
  "run operators w events = foldl (step operators) w events"

text \<open>The descriptors handed out, in the order of the calls, to calls on stub \<open>i\<close>.\<close>

definition issued :: "nat \<Rightarrow> world \<Rightarrow> json list" where
  "issued i w = map callDescriptor (filter (\<lambda>c. callTarget c = Some i) (startedCalls w))"

subsection \<open>An equality operator\<close>

text \<open>
  Modelled from the spec: \<open>value[key]\<close> on parsed JSON, as the operators of the
  module \<open>./predicates\<close>, which is not among the sources, read the request. A key that
  is absent, or a value that is no object, gives \<open>undefined\<close>.
\<close>

fun property :: "json \<Rightarrow> string \<Rightarrow> json" where
  "property (JObj properties) key =
     (case map_of properties key of Some v \<Rightarrow> v | None \<Rightarrow> JUndefined)"
| "property v key = JUndefined"

text \<open>
  Modelled from the spec: the lookup of a dotted field name in the request; the
  operators' module is not among the sources. Section 4.1 of the specification
  addresses nested fields by "purely textual dot-composition" and leaves a missing
  field to the operator. \<open>segment\<close> is the part of the name read since the last dot.
\<close>

fun getField :: "json \<Rightarrow> string \<Rightarrow> string \<Rightarrow> json" where
  "getField v segment [] = property v segment"
| "getField v segment (c # cs) =
     (if c = CHR ''.'' then getField (property v segment) [] cs
      else getField v (segment @ [c]) cs)"

text \<open>
  Modelled from the spec: the equality operator of the module \<open>./predicates\<close>, which
  is not among the sources. Section 3 of the specification has a leaf matcher
  "compare a named request field against a literal".
\<close>

definition equals :: operator where
  "equals fieldName expected req = Inr (getField req [] fieldName = expected)"

text \<open>
  Modelled from the spec: an operator table, in place of the module \<open>./predicates\<close>,
  that knows the equality operator and nothing else.
\<close>

definition specOperators :: operators where
  "specOperators key = (if key = ''equals'' then Some equals else None)"

section \<open>Properties\<close>

subsection \<open>Auxiliary facts\<close>

lemma matchesPredicate_JObj:
  "matchesPredicate ops f (JObj ps) req = trueForAll ps (evaluateKey ops f (JObj ps) req)"
  by (simp add: matchesPredicate.simps [of ops f "JObj ps" req] evaluateKey_def)

lemma matchesPredicate_JNull:
  "matchesPredicate ops f JNull req = Inl (TypeError ''Object.keys called on non-object'')"
  by (simp add: matchesPredicate.simps [of ops f JNull req])

lemma matchesPredicate_not_object:
  "typeof p \<noteq> ''object'' \<or> isArray p \<Longrightarrow>
   matchesPredicate ops f p req = Inl (ValidationError ''predicate must be an object'' p)"
  by (simp add: matchesPredicate.simps [of ops f p req])

lemma mapE_first_error:
  "\<forall>y\<in>set pre. \<exists>b. f y = Inr b \<Longrightarrow> f x = Inl e \<Longrightarrow> mapE f (pre @ x # post) = Inl e"
proof (induction pre)
  case Nil
  then show ?case by simp
next
  case (Cons a pre)
  then obtain b where "f a = Inr b" by auto
  with Cons show ?case by simp
qed

lemma trueForAll_first_error:
  "\<forall>y\<in>set pre. \<exists>b. f y = Inr b \<Longrightarrow> f x = Inl e \<Longrightarrow> trueForAll (pre @ x # post) f = Inl e"
  by (simp add: trueForAll_def mapE_first_error)

lemma filterE_first_error:
  "\<forall>y\<in>set pre. \<exists>b. f y = Inr b \<Longrightarrow> f x = Inl e \<Longrightarrow> filterE f (pre @ x # post) = Inl e"
proof (induction pre)
  case Nil
  then show ?case by simp
next
  case (Cons a pre)
  then obtain b where "f a = Inr b" by auto
  with Cons show ?case by simp
qed

lemma filterE_total:
  "\<forall>x\<in>set xs. \<exists>b. f x = Inr b \<Longrightarrow> filterE f xs = Inr (filter (\<lambda>x. f x = Inr True) xs)"
proof (induction xs)
  case Nil
  then show ?case by simp
next
  case (Cons a xs)
  then obtain b where "f a = Inr b" by auto
  with Cons show ?case by simp
qed

lemma filterE_Inr_D:
  "filterE f xs = Inr ys \<Longrightarrow> \<forall>x\<in>set xs. \<exists>b. f x = Inr b"
proof (induction xs arbitrary: ys)
  case Nil
  then show ?case by simp
next
  case (Cons a xs)
  from Cons.prems obtain b where b: "f a = Inr b" by (cases "f a") simp_all
  with Cons.prems obtain zs where "filterE f xs = Inr zs" by (cases "filterE f xs") simp_all
  with Cons.IH b show ?case by simp
qed

lemma stubMatches_predicates:
  "predicates s = predicates s' \<Longrightarrow> stubMatches ops req s = stubMatches ops req s'"
  by (simp add: stubMatches_def)

lemma enumerate_split:
  assumes "i < length xs"
  shows "enumerate n xs = enumerate n (take i xs) @ (n + i, xs ! i) # enumerate (Suc (n + i)) (drop (Suc i) xs)"
proof -
  have "enumerate n xs = enumerate n (take i xs @ xs ! i # drop (Suc i) xs)"
    using assms by (simp add: id_take_nth_drop [symmetric])
  also have "\<dots> = enumerate n (take i xs) @ (n + i, xs ! i) # enumerate (Suc (n + i)) (drop (Suc i) xs)"
    using assms by (simp add: enumerate_append_eq min_def)
  finally show ?thesis .
qed

lemma findFirstMatch_total:
  assumes "\<forall>s\<in>set stubs. \<exists>b. stubMatches ops req s = Inr b"
  shows "findFirstMatch ops stubs req =
         Inr (case filter (\<lambda>(i, s). stubMatches ops req s = Inr True) (enumerate 0 stubs) of
                [] \<Rightarrow> None | x # rest \<Rightarrow> Some x)"
proof -
  let ?f = "\<lambda>(i, s). stubMatches ops req s"
  let ?M = "filter (\<lambda>(i, s). stubMatches ops req s = Inr True) (enumerate 0 stubs)"
  have "\<forall>x\<in>set (enumerate 0 stubs). \<exists>b. ?f x = Inr b"
    using assms by (auto simp: enumerate_eq_zip dest: set_zip_rightD)
  from filterE_total [OF this]
  have "filterE ?f (enumerate 0 stubs) = Inr (filter (\<lambda>x. ?f x = Inr True) (enumerate 0 stubs))" .
  also have "filter (\<lambda>x. ?f x = Inr True) (enumerate 0 stubs) = ?M"
    by (rule filter_cong) auto
  finally have M: "filterE ?f (enumerate 0 stubs) = Inr ?M" .
  show ?thesis
  proof (cases "stubs = []")
    case True
    then show ?thesis by (simp add: findFirstMatch_def)
  next
    case False
    then show ?thesis
      by (cases ?M) (simp_all add: findFirstMatch_def M)
  qed
qed

lemma findFirstMatch_Some:
  assumes all: "\<forall>s\<in>set stubs. \<exists>b. stubMatches ops req s = Inr b"
    and i: "i < length stubs"
    and hit: "stubMatches ops req (stubs ! i) = Inr True"
    and before: "\<forall>j<i. stubMatches ops req (stubs ! j) = Inr False"
  shows "findFirstMatch ops stubs req = Inr (Some (i, stubs ! i))"
proof -
  let ?P = "\<lambda>(i, s). stubMatches ops req s = Inr True"
  have "filter ?P (enumerate 0 (take i stubs)) = []"
  proof -
    have "\<not> ?P x" if "x \<in> set (enumerate 0 (take i stubs))" for x
    proof -
      obtain j s where x: "x = (j, s)" by (cases x)
      with that have "j < i" "s = stubs ! j"
        using i by (auto simp: in_set_enumerate_eq)
      with before x show ?thesis by simp
    qed
    then show ?thesis by (simp add: filter_empty_conv)
  qed
  with hit have "filter ?P (enumerate 0 stubs) =
                 (i, stubs ! i) # filter ?P (enumerate (Suc i) (drop (Suc i) stubs))"
    by (simp add: enumerate_split [OF i, of 0])
  with findFirstMatch_total [OF all] show ?thesis by simp
qed

lemma findFirstMatch_None:
  assumes "\<forall>s\<in>set stubs. stubMatches ops req s = Inr False"
  shows "findFirstMatch ops stubs req = Inr None"
proof -
  have all: "\<forall>s\<in>set stubs. \<exists>b. stubMatches ops req s = Inr b" using assms by blast
  have "filter (\<lambda>(i, s). stubMatches ops req s = Inr True) (enumerate 0 stubs) = []"
    using assms by (auto simp: filter_empty_conv enumerate_eq_zip dest: set_zip_rightD)
  with findFirstMatch_total [OF all] show ?thesis by simp
qed

lemma findFirstMatch_Inr_D:
  assumes "findFirstMatch ops stubs req = Inr found"
  shows "\<forall>s\<in>set stubs. \<exists>b. stubMatches ops req s = Inr b"
proof (cases "stubs = []")
  case True
  then show ?thesis by simp
next
  case False
  with assms obtain matched
    where "filterE (\<lambda>(i, s). stubMatches ops req s) (enumerate 0 stubs) = Inr matched"
    by (auto simp: findFirstMatch_def split: sum.splits)
  from filterE_Inr_D [OF this]
  have *: "\<forall>x\<in>set (enumerate 0 stubs). \<exists>b. (case x of (i, s) \<Rightarrow> stubMatches ops req s) = Inr b" .
  show ?thesis
  proof
    fix s assume "s \<in> set stubs"
    then obtain j where "j < length stubs" "s = stubs ! j" by (auto simp: in_set_conv_nth)
    then have "(j, s) \<in> set (enumerate 0 stubs)" by (simp add: in_set_enumerate_eq)
    with * show "\<exists>b. stubMatches ops req s = Inr b" by fastforce
  qed
qed

lemma findFirstMatch_Some_D:
  assumes "findFirstMatch ops stubs req = Inr (Some (i, s))"
  shows "i < length stubs \<and> s = stubs ! i \<and> stubMatches ops req s = Inr True \<and>
         (\<forall>j<i. stubMatches ops req (stubs ! j) = Inr False)"
proof -
  let ?P = "\<lambda>(i, s). stubMatches ops req s = Inr True"
  have all: "\<forall>s\<in>set stubs. \<exists>b. stubMatches ops req s = Inr b"
    using findFirstMatch_Inr_D [OF assms] .
  from assms findFirstMatch_total [OF all]
  obtain rest where "filter ?P (enumerate 0 stubs) = (i, s) # rest"
    by (auto split: list.splits)
  then obtain us vs where split: "enumerate 0 stubs = us @ (i, s) # vs"
    and us: "\<forall>u\<in>set us. \<not> ?P u" and hit: "?P (i, s)"
    by (auto simp: filter_eq_Cons_iff)
  from split have "(i, s) \<in> set (enumerate 0 stubs)" by simp
  then have i: "i < length stubs" and s: "s = stubs ! i" by (auto simp: in_set_enumerate_eq)
  have len: "length us = i"
  proof -
    from split have "length us < length (enumerate 0 stubs)" by simp
    then have "enumerate 0 stubs ! length us = (length us, stubs ! length us)"
      by (simp add: nth_enumerate_eq)
    moreover from split have "enumerate 0 stubs ! length us = (i, s)" by simp
    ultimately show ?thesis by simp
  qed
  have "stubMatches ops req (stubs ! j) = Inr False" if "j < i" for j
  proof -
    from that len have j: "j < length us" by simp
    with split have "us ! j = enumerate 0 stubs ! j" by (simp add: nth_append)
    also from that i have "\<dots> = (j, stubs ! j)" by (simp add: nth_enumerate_eq)
    finally have "(j, stubs ! j) \<in> set us" using j by (metis nth_mem)
    with us have "stubMatches ops req (stubs ! j) \<noteq> Inr True" by auto
    moreover from that i all obtain b where "stubMatches ops req (stubs ! j) = Inr b"
      by (metis nth_mem order.strict_trans)
    ultimately show ?thesis by (cases b) simp_all
  qed
  with i s hit show ?thesis by simp
qed

lemma resolve_Some:
  assumes "findFirstMatch ops stubs req = Inr (Some (i, s))" and "responses s = d # rest"
  shows "resolve resolver ops now stubs req =
     Inr (case resolver d req (stubs[i := s\<lparr>responses := rest @ [d]\<rparr>]) of
            Inr resp \<Rightarrow>
              \<lparr>promise = Inr resp, stubResolver = d, selected = Some i,
               selectedStub = s\<lparr>responses := rest @ [d],
                 matches := Some (matchesOrEmpty s @
                                  [\<lparr>timestamp = now, request = req, response = resp\<rparr>])\<rparr>,
               repository = stubs[i := s\<lparr>responses := rest @ [d],
                 matches := Some (matchesOrEmpty s @
                                  [\<lparr>timestamp = now, request = req, response = resp\<rparr>])\<rparr>]\<rparr>
          | Inl failure \<Rightarrow>
              \<lparr>promise = Inl failure, stubResolver = d, selected = Some i,
               selectedStub = s\<lparr>responses := rest @ [d]\<rparr>,
               repository = stubs[i := s\<lparr>responses := rest @ [d]\<rparr>]\<rparr>)"
  using assms by (simp add: resolve_def shift_def push_def store_def matchesOrEmpty_def Let_def split: sum.splits)

lemma resolve_None:
  assumes "findFirstMatch ops stubs req = Inr None"
  shows "resolve resolver ops now stubs req =
     Inr (case resolver (JObj [(''is'', JObj [])]) req stubs of
            Inr resp \<Rightarrow>
              \<lparr>promise = Inr resp, stubResolver = JObj [(''is'', JObj [])], selected = None,
               selectedStub = implicitStub\<lparr>matches :=
                 Some [\<lparr>timestamp = now, request = req, response = resp\<rparr>]\<rparr>,
               repository = stubs\<rparr>
          | Inl failure \<Rightarrow>
              \<lparr>promise = Inl failure, stubResolver = JObj [(''is'', JObj [])], selected = None,
               selectedStub = implicitStub, repository = stubs\<rparr>)"
  using assms
  by (simp add: resolve_def shift_def push_def store_def implicitStub_def matchesOrEmpty_def Let_def split: sum.splits)

lemma resolve_Inl:
  "findFirstMatch ops stubs req = Inl e \<Longrightarrow> resolve resolver ops now stubs req = Inl e"
  by (simp add: resolve_def)

lemma findFirstMatch_preserved:
  assumes len: "length stubs' = length stubs"
    and same: "\<forall>j<length stubs. predicates (stubs' ! j) = predicates (stubs ! j)"
    and found: "findFirstMatch ops stubs req = Inr (Some (i, s))"
  shows "findFirstMatch ops stubs' req = Inr (Some (i, stubs' ! i))"
proof -
  have eq: "stubMatches ops req (stubs' ! j) = stubMatches ops req (stubs ! j)" if "j < length stubs" for j
    using same that by (intro stubMatches_predicates) simp
  note D = findFirstMatch_Some_D [OF found]
  from D have i: "i < length stubs" by blast
  from D have hit: "stubMatches ops req (stubs ! i) = Inr True" by auto
  from D have before: "\<forall>j<i. stubMatches ops req (stubs ! j) = Inr False" by blast
  have all: "\<forall>s\<in>set stubs'. \<exists>b. stubMatches ops req s = Inr b"
  proof
    fix t assume "t \<in> set stubs'"
    then obtain j where j: "j < length stubs'" "t = stubs' ! j" by (auto simp: in_set_conv_nth)
    with len have "stubs ! j \<in> set stubs" by simp
    with findFirstMatch_Inr_D [OF found] obtain b where "stubMatches ops req (stubs ! j) = Inr b"
      by blast
    with eq [of j] j len show "\<exists>b. stubMatches ops req t = Inr b" by simp
  qed
  show ?thesis
  proof (rule findFirstMatch_Some [OF all])
    show "i < length stubs'" using i len by simp
    show "stubMatches ops req (stubs' ! i) = Inr True" using eq [OF i] hit by simp
    show "\<forall>j<i. stubMatches ops req (stubs' ! j) = Inr False"
      using before eq i by simp
  qed
qed

lemma resolveEach_same_stub:
  assumes "\<forall>(now, rq)\<in>set calls. \<exists>s. findFirstMatch ops stubs rq = Inr (Some (i, s))"
    and "i < length stubs"
    and "responses (stubs ! i) = q" and "q \<noteq> []"
  shows "\<exists>rs final. resolveEach resolver ops stubs calls = Inr (rs, final) \<and>
           map selected rs = replicate (length calls) (Some i) \<and>
           map stubResolver rs = map (\<lambda>n. q ! (n mod length q)) [0..<length calls] \<and>
           length final = length stubs \<and>
           (\<forall>k<length stubs. predicates (final ! k) = predicates (stubs ! k)) \<and>
           (\<forall>k<length stubs. k \<noteq> i \<longrightarrow> final ! k = stubs ! k) \<and>
           responses (final ! i) = rotate (length calls) q"
  using assms
proof (induction calls arbitrary: stubs q)
  case Nil
  then show ?case by simp
next
  case (Cons call calls)
  obtain now rq where call: "call = (now, rq)" by (cases call)
  from Cons.prems(1) call obtain s where found: "findFirstMatch ops stubs rq = Inr (Some (i, s))"
    by auto
  from findFirstMatch_Some_D [OF found] have s: "s = stubs ! i" by simp
  from Cons.prems(3,4) s obtain d rest where q: "q = d # rest" "responses s = d # rest"
    by (cases q) auto
  define s1 where "s1 = s\<lparr>responses := rest @ [d]\<rparr>"
  have "\<exists>r ms. resolve resolver ops now stubs rq = Inr r \<and> selected r = Some i \<and>
           stubResolver r = d \<and> repository r = stubs[i := s1\<lparr>matches := ms\<rparr>]"
  proof (cases "resolver d rq (stubs[i := s1])")
    case (Inl failure)
    have same: "s1\<lparr>matches := matches s\<rparr> = s1" by (simp add: s1_def)
    let ?r = "\<lparr>promise = Inl failure, stubResolver = d, selected = Some i,
               selectedStub = s1, repository = stubs[i := s1]\<rparr>"
    from Inl resolve_Some [OF found q(2), of resolver now]
    have "resolve resolver ops now stubs rq = Inr ?r" by (simp add: s1_def)
    then have "resolve resolver ops now stubs rq = Inr ?r \<and> selected ?r = Some i \<and>
           stubResolver ?r = d \<and> repository ?r = stubs[i := s1\<lparr>matches := matches s\<rparr>]"
      by (simp add: same)
    then show ?thesis by blast
  next
    case (Inr resp)
    with resolve_Some [OF found q(2), of resolver now] show ?thesis
      by (auto simp: s1_def)
  qed
  then obtain r where r: "resolve resolver ops now stubs rq = Inr r"
    and sel: "selected r = Some i" and desc: "stubResolver r = d"
    and repo: "\<exists>ms. repository r = stubs[i := s1\<lparr>matches := ms\<rparr>]"
    by blast
  from repo obtain ms where repo': "repository r = stubs[i := s1\<lparr>matches := ms\<rparr>]" by blast
  let ?stubs' = "repository r"
  have len: "length ?stubs' = length stubs" by (simp add: repo')
  have preds: "\<forall>j<length stubs. predicates (?stubs' ! j) = predicates (stubs ! j)"
    using s Cons.prems(2) by (simp add: repo' s1_def nth_list_update)
  have others: "\<forall>k<length stubs. k \<noteq> i \<longrightarrow> ?stubs' ! k = stubs ! k"
    by (simp add: repo')
  have resp: "responses (?stubs' ! i) = rotate1 q"
    using Cons.prems(2) by (simp add: repo' s1_def q)
  have sel': "\<forall>(now, rq)\<in>set calls. \<exists>s. findFirstMatch ops ?stubs' rq = Inr (Some (i, s))"
  proof -
    have "\<exists>s. findFirstMatch ops ?stubs' rq' = Inr (Some (i, s))" if "(now', rq') \<in> set calls" for now' rq'
    proof -
      from Cons.prems(1) that obtain s' where "findFirstMatch ops stubs rq' = Inr (Some (i, s'))"
        by fastforce
      from findFirstMatch_preserved [OF len preds this] show ?thesis by blast
    qed
    then show ?thesis by auto
  qed
  have i': "i < length ?stubs'" using Cons.prems(2) len by simp
  have ne: "rotate1 q \<noteq> []" using Cons.prems(4) by simp
  from Cons.IH [OF sel' i' resp ne]
  obtain rs final where rest: "resolveEach resolver ops ?stubs' calls = Inr (rs, final)"
    and selR: "map selected rs = replicate (length calls) (Some i)"
    and descR: "map stubResolver rs = map (\<lambda>n. rotate1 q ! (n mod length (rotate1 q))) [0..<length calls]"
    and lenR: "length final = length ?stubs'"
    and predsR: "\<forall>k<length ?stubs'. predicates (final ! k) = predicates (?stubs' ! k)"
    and othersR: "\<forall>k<length ?stubs'. k \<noteq> i \<longrightarrow> final ! k = ?stubs' ! k"
    and respR: "responses (final ! i) = rotate (length calls) (rotate1 q)"
    by blast
  have run: "resolveEach resolver ops stubs (call # calls) = Inr (r # rs, final)"
    by (simp add: call r rest)
  have d0: "d = q ! (0 mod length q)" by (simp add: q)
  have shiftq: "rotate1 q ! (n mod length q) = q ! (Suc n mod length q)" for n
  proof -
    have "n mod length q < length q" using Cons.prems(4) by simp
    then have "rotate1 q ! (n mod length q) = q ! (Suc (n mod length q) mod length q)"
      by (rule nth_rotate1)
    then show ?thesis by (simp add: mod_Suc_eq)
  qed
  have descs: "map stubResolver (r # rs) = map (\<lambda>n. q ! (n mod length q)) [0..<length (call # calls)]"
  proof -
    have "[0..<length (call # calls)] = 0 # map Suc [0..<length calls]"
      by (simp add: upt_conv_Cons map_Suc_upt del: upt_Suc)
    then show ?thesis
      using descR desc d0 by (simp add: shiftq del: upt_Suc)
  qed
  have resp': "responses (final ! i) = rotate (length (call # calls)) q"
    using respR by (simp add: rotate1_rotate_swap)
  have sels: "map selected (r # rs) = replicate (length (call # calls)) (Some i)"
    using sel selR by simp
  have lenF: "length final = length stubs" using lenR len by simp
  have predsF: "\<forall>k<length stubs. predicates (final ! k) = predicates (stubs ! k)"
    using predsR preds len by simp
  have othersF: "\<forall>k<length stubs. k \<noteq> i \<longrightarrow> final ! k = stubs ! k"
    using othersR others len by simp
  from run sels descs lenF predsF othersF resp' show ?case by blast
qed

lemmas evaluation =
  stubMatches_def trueForAll_def matchesPredicate_JObj matchesPredicate_JNull
  matchesPredicate_not_object evaluateKey_def specOperators_def equals_def

lemma findFirstMatch_cases:
  obtains (thrown) e where "findFirstMatch ops stubs req = Inl e"
  | (none) "findFirstMatch ops stubs req = Inr None"
  | (some) i s where "findFirstMatch ops stubs req = Inr (Some (i, s))"
proof (cases "findFirstMatch ops stubs req")
  case (Inl e)
  then show ?thesis by (rule thrown)
next
  case (Inr found)
  show ?thesis
  proof (cases found)
    case None
    with Inr show ?thesis by (auto intro: none)
  next
    case (Some p)
    with Inr show ?thesis by (cases p) (auto intro: some)
  qed
qed

lemma resolve_Some_any:
  assumes found: "findFirstMatch ops stubs req = Inr (Some (i, s))"
  shows "resolve resolver ops now stubs req =
     Inr (let d = fst (shift (responses s));
              s1 = s\<lparr>responses := push (snd (shift (responses s))) d\<rparr>
          in case resolver d req (stubs[i := s1]) of
            Inr resp \<Rightarrow>
              \<lparr>promise = Inr resp, stubResolver = d, selected = Some i,
               selectedStub = s1\<lparr>matches := Some (matchesOrEmpty s @
                                  [\<lparr>timestamp = now, request = req, response = resp\<rparr>])\<rparr>,
               repository = stubs[i := s1\<lparr>matches := Some (matchesOrEmpty s @
                                  [\<lparr>timestamp = now, request = req, response = resp\<rparr>])\<rparr>]\<rparr>
          | Inl failure \<Rightarrow>
              \<lparr>promise = Inl failure, stubResolver = d, selected = Some i,
               selectedStub = s1, repository = stubs[i := s1]\<rparr>)"
  using found
  by (simp add: resolve_def push_def store_def matchesOrEmpty_def Let_def
           split: sum.splits prod.splits)

lemmas running =
  findFirstMatch_def resolve_def shift_def push_def store_def matchesOrEmpty_def
  implicitStub_def Let_def

lemma malformed_throws:
  "malformed ops req f node \<Longrightarrow>
   \<exists>message source. matchesPredicate ops f node req = Inl (ValidationError message source)"
proof (induction rule: malformed.induct)
  case (notObject node fieldName)
  then show ?case by (simp add: matchesPredicate_not_object)
next
  case (bogusKey before fieldName key arg after)
  let ?node = "JObj (before @ (key, arg) # after)"
  have "evaluateKey ops fieldName ?node req (key, arg) =
        Inl (ValidationError (noPredicate key) ?node)"
    using bogusKey by (simp add: evaluateKey_def)
  from trueForAll_first_error [OF bogusKey(1) this] show ?case
    by (simp only: matchesPredicate_JObj) blast
next
  case (nestedNode before fieldName key arg after)
  let ?node = "JObj (before @ (key, arg) # after)"
  from nestedNode.IH obtain message source
    where "matchesPredicate ops (fieldName @ ''.'' @ key) arg req =
           Inl (ValidationError message source)" by blast
  then have "evaluateKey ops fieldName ?node req (key, arg) =
        Inl (ValidationError message source)"
    using nestedNode.hyps by (simp add: evaluateKey_def)
  from trueForAll_first_error [OF nestedNode.hyps(1) this] show ?case
    by (simp only: matchesPredicate_JObj) blast
qed

lemma stubMatches_first_error:
  assumes "predicates s = Some (pre @ (fieldName, node) # post)"
    and "\<forall>p\<in>set pre. \<exists>b. (case p of (f, n) \<Rightarrow> matchesPredicate ops f n req) = Inr b"
    and "matchesPredicate ops fieldName node req = Inl e"
  shows "stubMatches ops req s = Inl e"
proof -
  let ?f = "\<lambda>(f, n). matchesPredicate ops f n req"
  have "?f (fieldName, node) = Inl e" using assms(3) by simp
  from trueForAll_first_error [of pre ?f, OF assms(2) this] assms(1)
  show ?thesis by (simp add: stubMatches_def)
qed

lemma findFirstMatch_first_error:
  assumes "\<forall>t\<in>set before. \<exists>b. stubMatches ops req t = Inr b"
    and "stubMatches ops req s = Inl e"
  shows "findFirstMatch ops (before @ s # after) req = Inl e"
proof -
  let ?f = "\<lambda>(i, t). stubMatches ops req t"
  have split: "enumerate 0 (before @ s # after) =
        enumerate 0 before @ (length before, s) # enumerate (Suc (length before)) after"
    by (simp add: enumerate_append_eq)
  have ok: "\<forall>y\<in>set (enumerate 0 before). \<exists>b. ?f y = Inr b"
    using assms(1) by (auto simp: enumerate_eq_zip dest: set_zip_rightD)
  have bad: "?f (length before, s) = Inl e" using assms(2) by simp
  from filterE_first_error [of "enumerate 0 before" ?f, OF ok bad]
  show ?thesis by (simp add: findFirstMatch_def split)
qed

lemma resolve_selected_step:
  assumes found: "findFirstMatch ops stubs rq = Inr (Some (i, s))"
  shows "\<exists>r ms. resolve resolver ops now stubs rq = Inr r \<and> selected r = Some i \<and>
           stubResolver r = fst (shift (responses (stubs ! i))) \<and>
           promise r = resolver (fst (shift (responses (stubs ! i)))) rq
             (stubs[i := (stubs ! i)\<lparr>responses :=
                push (snd (shift (responses (stubs ! i)))) (fst (shift (responses (stubs ! i))))\<rparr>]) \<and>
           repository r = stubs[i := (stubs ! i)\<lparr>responses :=
                push (snd (shift (responses (stubs ! i)))) (fst (shift (responses (stubs ! i)))),
                matches := ms\<rparr>]"
proof -
  from findFirstMatch_Some_D [OF found] have s: "s = stubs ! i" by simp
  define d where "d = fst (shift (responses s))"
  define s1 where "s1 = s\<lparr>responses := push (snd (shift (responses s))) d\<rparr>"
  note R = resolve_Some_any [OF found, of resolver now, unfolded Let_def, folded d_def, folded s1_def]
  show ?thesis
  proof (cases "resolver d rq (stubs[i := s1])")
    case (Inl failure)
    have same: "s1\<lparr>matches := matches s\<rparr> = s1" by (simp add: s1_def)
    let ?r = "\<lparr>promise = Inl failure, stubResolver = d, selected = Some i,
               selectedStub = s1, repository = stubs[i := s1]\<rparr>"
    from Inl R have "resolve resolver ops now stubs rq = Inr ?r" by simp
    with Inl same have "resolve resolver ops now stubs rq = Inr ?r \<and> selected ?r = Some i \<and>
        stubResolver ?r = d \<and> promise ?r = resolver d rq (stubs[i := s1]) \<and>
        repository ?r = stubs[i := s1\<lparr>matches := matches s\<rparr>]" by simp
    then show ?thesis unfolding s1_def d_def s by blast
  next
    case (Inr resp)
    let ?ms = "Some (matchesOrEmpty s @ [\<lparr>timestamp = now, request = rq, response = resp\<rparr>])"
    let ?r = "\<lparr>promise = Inr resp, stubResolver = d, selected = Some i,
               selectedStub = s1\<lparr>matches := ?ms\<rparr>, repository = stubs[i := s1\<lparr>matches := ?ms\<rparr>]\<rparr>"
    from Inr R have "resolve resolver ops now stubs rq = Inr ?r" by simp
    with Inr have "resolve resolver ops now stubs rq = Inr ?r \<and> selected ?r = Some i \<and>
        stubResolver ?r = d \<and> promise ?r = resolver d rq (stubs[i := s1]) \<and>
        repository ?r = stubs[i := s1\<lparr>matches := ?ms\<rparr>]" by simp
    then show ?thesis unfolding s1_def d_def s by blast
  qed
qed

lemma rotation_nonempty:
  "q \<noteq> [] \<Longrightarrow> push (snd (shift q)) (fst (shift q)) = rotate1 q"
  by (cases q) (simp_all add: shift_def push_def)

lemma resolveEach_steps:
  assumes "\<forall>(now, rq)\<in>set calls. \<exists>s. findFirstMatch ops stubs rq = Inr (Some (i, s))"
    and "i < length stubs"
  shows "\<exists>rs final. resolveEach resolver ops stubs calls = Inr (rs, final) \<and>
     length rs = length calls \<and>
     (\<forall>k<length calls.
        let pre = (stubs # map repository rs) ! k;
            d = fst (shift (responses (pre ! i)));
            rotated = push (snd (shift (responses (pre ! i)))) d
        in length pre = length stubs \<and>
           (\<forall>j<length stubs. j \<noteq> i \<longrightarrow> pre ! j = stubs ! j) \<and>
           (responses (stubs ! i) \<noteq> [] \<longrightarrow>
              responses (pre ! i) = rotate k (responses (stubs ! i))) \<and>
           selected (rs ! k) = Some i \<and> stubResolver (rs ! k) = d \<and>
           promise (rs ! k) =
             resolver d (snd (calls ! k)) (pre[i := (pre ! i)\<lparr>responses := rotated\<rparr>])) \<and>
     length final = length stubs \<and>
     (\<forall>j<length stubs. j \<noteq> i \<longrightarrow> final ! j = stubs ! j)"
  using assms
proof (induction calls arbitrary: stubs)
  case Nil
  then show ?case by simp
next
  case (Cons call calls)
  obtain now rq where call: "call = (now, rq)" by (cases call)
  let ?q = "responses (stubs ! i)"
  let ?d = "fst (shift ?q)"
  let ?rot = "push (snd (shift ?q)) ?d"
  from Cons.prems(1) call obtain s where found: "findFirstMatch ops stubs rq = Inr (Some (i, s))"
    by auto
  from resolve_selected_step [OF found, of resolver now]
  obtain r ms where r: "resolve resolver ops now stubs rq = Inr r"
    and sel: "selected r = Some i" and desc: "stubResolver r = ?d"
    and prom: "promise r = resolver ?d rq (stubs[i := (stubs ! i)\<lparr>responses := ?rot\<rparr>])"
    and repo: "repository r = stubs[i := (stubs ! i)\<lparr>responses := ?rot, matches := ms\<rparr>]"
    by blast
  let ?stubs' = "repository r"
  have len: "length ?stubs' = length stubs" by (simp add: repo)
  have preds: "\<forall>j<length stubs. predicates (?stubs' ! j) = predicates (stubs ! j)"
    using Cons.prems(2) by (simp add: repo nth_list_update)
  have others: "\<forall>j<length stubs. j \<noteq> i \<longrightarrow> ?stubs' ! j = stubs ! j"
    by (simp add: repo)
  have resp: "responses (?stubs' ! i) = ?rot"
    using Cons.prems(2) by (simp add: repo)
  have sel': "\<forall>(now, rq)\<in>set calls. \<exists>s. findFirstMatch ops ?stubs' rq = Inr (Some (i, s))"
  proof -
    have "\<exists>s. findFirstMatch ops ?stubs' rq' = Inr (Some (i, s))"
      if "(now', rq') \<in> set calls" for now' rq'
    proof -
      from Cons.prems(1) that obtain s' where "findFirstMatch ops stubs rq' = Inr (Some (i, s'))"
        by fastforce
      from findFirstMatch_preserved [OF len preds this] show ?thesis by blast
    qed
    then show ?thesis by auto
  qed
  have i': "i < length ?stubs'" using Cons.prems(2) len by simp
  from Cons.IH [OF sel' i']
  obtain rs final where run': "resolveEach resolver ops ?stubs' calls = Inr (rs, final)"
    and lenrs: "length rs = length calls"
    and steps: "\<forall>k<length calls.
        let pre = (?stubs' # map repository rs) ! k;
            d = fst (shift (responses (pre ! i)));
            rotated = push (snd (shift (responses (pre ! i)))) d
        in length pre = length ?stubs' \<and>
           (\<forall>j<length ?stubs'. j \<noteq> i \<longrightarrow> pre ! j = ?stubs' ! j) \<and>
           (responses (?stubs' ! i) \<noteq> [] \<longrightarrow>
              responses (pre ! i) = rotate k (responses (?stubs' ! i))) \<and>
           selected (rs ! k) = Some i \<and> stubResolver (rs ! k) = d \<and>
           promise (rs ! k) =
             resolver d (snd (calls ! k)) (pre[i := (pre ! i)\<lparr>responses := rotated\<rparr>])"
    and lenF: "length final = length ?stubs'"
    and othersF: "\<forall>j<length ?stubs'. j \<noteq> i \<longrightarrow> final ! j = ?stubs' ! j"
    by blast
  have run: "resolveEach resolver ops stubs (call # calls) = Inr (r # rs, final)"
    by (simp add: call r run')
  have step: "let pre = (stubs # map repository (r # rs)) ! k;
            d = fst (shift (responses (pre ! i)));
            rotated = push (snd (shift (responses (pre ! i)))) d
        in length pre = length stubs \<and>
           (\<forall>j<length stubs. j \<noteq> i \<longrightarrow> pre ! j = stubs ! j) \<and>
           (?q \<noteq> [] \<longrightarrow> responses (pre ! i) = rotate k ?q) \<and>
           selected ((r # rs) ! k) = Some i \<and> stubResolver ((r # rs) ! k) = d \<and>
           promise ((r # rs) ! k) =
             resolver d (snd ((call # calls) ! k)) (pre[i := (pre ! i)\<lparr>responses := rotated\<rparr>])"
    if k: "k < length (call # calls)" for k
  proof (cases k)
    case 0
    then show ?thesis by (simp add: Let_def sel desc prom call)
  next
    case (Suc k')
    with k have k': "k' < length calls" by simp
    let ?pre = "(?stubs' # map repository rs) ! k'"
    from steps k' have
      a: "length ?pre = length ?stubs'"
      and b: "\<forall>j<length ?stubs'. j \<noteq> i \<longrightarrow> ?pre ! j = ?stubs' ! j"
      and c: "responses (?stubs' ! i) \<noteq> [] \<longrightarrow>
                responses (?pre ! i) = rotate k' (responses (?stubs' ! i))"
      and d: "selected (rs ! k') = Some i"
      and e: "stubResolver (rs ! k') = fst (shift (responses (?pre ! i)))"
      and f: "promise (rs ! k') =
           resolver (fst (shift (responses (?pre ! i)))) (snd (calls ! k'))
             (?pre[i := (?pre ! i)\<lparr>responses :=
                push (snd (shift (responses (?pre ! i)))) (fst (shift (responses (?pre ! i))))\<rparr>])"
      by (simp_all add: Let_def)
    have c': "?q \<noteq> [] \<longrightarrow> responses (?pre ! i) = rotate (Suc k') ?q"
    proof
      assume ne: "?q \<noteq> []"
      then have "responses (?stubs' ! i) = rotate1 ?q"
        using resp by (simp add: rotation_nonempty)
      moreover from this ne have "responses (?stubs' ! i) \<noteq> []" by simp
      ultimately show "responses (?pre ! i) = rotate (Suc k') ?q"
        using c by (simp add: rotate1_rotate_swap)
    qed
    have b': "\<forall>j<length stubs. j \<noteq> i \<longrightarrow> ?pre ! j = stubs ! j"
      using b others len by simp
    from a b' c' d e f len Suc show ?thesis by (simp add: Let_def)
  qed
  have lenF': "length final = length stubs" using lenF len by simp
  have othersF': "\<forall>j<length stubs. j \<noteq> i \<longrightarrow> final ! j = stubs ! j"
    using othersF others len by simp
  have "length (r # rs) = length (call # calls)" using lenrs by simp
  with run step lenF' othersF' show ?case by blast
qed

lemma start_target:
  assumes "start ops stubs req = Inr (c, stubs1)"
  shows "length stubs1 = length stubs \<and>
         (callTarget c = Some i \<longrightarrow>
            i < length stubs \<and>
            callDescriptor c = fst (shift (responses (stubs ! i))) \<and>
            responses (stubs1 ! i) =
              push (snd (shift (responses (stubs ! i)))) (fst (shift (responses (stubs ! i))))) \<and>
         (callTarget c \<noteq> Some i \<longrightarrow> stubs1 ! i = stubs ! i)"
proof (cases rule: findFirstMatch_cases [of ops stubs req])
  case (thrown e)
  with assms show ?thesis by (simp add: start_def)
next
  case none
  with assms show ?thesis
    by (auto simp: start_def store_def Let_def split: prod.splits)
next
  case (some j s)
  from findFirstMatch_Some_D [OF some] have j: "j < length stubs" and s: "s = stubs ! j"
    by simp_all
  with assms some show ?thesis
    by (auto simp: start_def store_def Let_def split: prod.splits)
qed

lemma settle_queue:
  assumes "i < length stubs"
  shows "length (repository (settle now c outcome stubs)) = length stubs \<and>
         responses (repository (settle now c outcome stubs) ! i) = responses (stubs ! i)"
proof (cases outcome)
  case (Inl failure)
  then show ?thesis by (simp add: settle_def)
next
  case (Inr resp)
  show ?thesis
  proof (cases "callTarget c")
    case None
    with Inr show ?thesis by (simp add: settle_def Let_def)
  next
    case (Some j)
    with Inr assms show ?thesis by (cases "j = i") (simp_all add: settle_def Let_def)
  qed
qed

lemma step_rotation:
  assumes q: "q \<noteq> []"
    and i: "i < length (repo w)"
    and iss: "issued i w = map (\<lambda>k. q ! (k mod length q)) [0..<length (issued i w)]"
    and resp: "responses (repo w ! i) = rotate (length (issued i w)) q"
  shows "i < length (repo (step ops w ev)) \<and>
         issued i (step ops w ev) =
           map (\<lambda>k. q ! (k mod length q)) [0..<length (issued i (step ops w ev))] \<and>
         responses (repo (step ops w ev) ! i) = rotate (length (issued i (step ops w ev))) q"
proof (cases ev)
  case (Start req)
  show ?thesis
  proof (cases "start ops (repo w) req")
    case (Inl e)
    with Start assms show ?thesis by simp
  next
    case (Inr p)
    obtain c stubs1 where p: "p = (c, stubs1)" by (cases p)
    let ?w' = "\<lparr>repo = stubs1, pendingCalls = pendingCalls w @ [c],
                startedCalls = startedCalls w @ [c]\<rparr>"
    have w': "step ops w ev = ?w'" using Start Inr p by simp
    note st = start_target [OF Inr [unfolded p], of i]
    let ?n = "length (issued i w)"
    show ?thesis
    proof (cases "callTarget c = Some i")
      case True
      have rot: "rotate ?n q \<noteq> []" using q by simp
      have d: "callDescriptor c = q ! (?n mod length q)"
      proof -
        from st True resp have "callDescriptor c = fst (shift (rotate ?n q))" by simp
        also have "\<dots> = hd (rotate ?n q)" using rot by (cases "rotate ?n q") (simp_all add: shift_def)
        also have "\<dots> = q ! (?n mod length q)" using q by (rule hd_rotate_conv_nth)
        finally show ?thesis .
      qed
      have iss': "issued i ?w' = issued i w @ [callDescriptor c]"
        using True by (simp add: issued_def)
      have "responses (stubs1 ! i) = rotate (Suc ?n) q"
        using st True resp rot by (simp add: rotation_nonempty)
      moreover have "issued i ?w' = map (\<lambda>k. q ! (k mod length q)) [0..<Suc ?n]"
        using iss iss' d by simp
      moreover have "i < length stubs1" using st i by simp
      ultimately show ?thesis using iss' by (simp add: w')
    next
      case False
      have "issued i ?w' = issued i w" using False by (simp add: issued_def)
      moreover have "stubs1 ! i = repo w ! i" using st False by simp
      moreover have "i < length stubs1" using st i by simp
      ultimately show ?thesis using iss resp by (simp add: w')
    qed
  qed
next
  case (Settle n now outcome)
  show ?thesis
  proof (cases "n < length (pendingCalls w)")
    case True
    with Settle assms settle_queue [OF i, of now "pendingCalls w ! n" outcome]
    show ?thesis by (simp add: issued_def)
  next
    case False
    with Settle assms show ?thesis by simp
  qed
next
  case (AddStub s)
  with assms show ?thesis by (simp add: issued_def addStub_def nth_append)
qed

lemma run_rotation:
  assumes "q \<noteq> []"
    and "i < length (repo w)"
    and "issued i w = map (\<lambda>k. q ! (k mod length q)) [0..<length (issued i w)]"
    and "responses (repo w ! i) = rotate (length (issued i w)) q"
  shows "i < length (repo (run ops w events)) \<and>
         issued i (run ops w events) =
           map (\<lambda>k. q ! (k mod length q)) [0..<length (issued i (run ops w events))] \<and>
         responses (repo (run ops w events) ! i) =
           rotate (length (issued i (run ops w events))) q"
  using assms
proof (induction events arbitrary: w)
  case Nil
  then show ?case by (simp add: run_def)
next
  case (Cons ev events)
  from step_rotation [OF Cons.prems, of ops ev]
  have "i < length (repo (step ops w ev))"
    and "issued i (step ops w ev) =
           map (\<lambda>k. q ! (k mod length q)) [0..<length (issued i (step ops w ev))]"
    and "responses (repo (step ops w ev) ! i) = rotate (length (issued i (step ops w ev))) q"
    by simp_all
  from Cons.IH [OF Cons.prems(1) this] show ?case by (simp add: run_def)
qed

subsection \<open>Selection\<close>

text \<open>
  Claim C1 (first-match precedence). When the predicates of every stub
  evaluate for the request and stub \<open>i\<close> is the earliest stub in insertion order
  that matches, every one of any number of successive resolutions of that request
  selects stub \<open>i\<close>, takes the head of the queue stub \<open>i\<close> has at that moment (for a
  queue that was not empty at the outset, that queue rotated once per earlier call),
  hands that descriptor to the resolver together with the stubs in which only that
  queue has moved on, and settles as the resolver does. Every other stub, the later
  matching ones among them, is the same before every call and after the last.
  \<open>pre\<close> is the repository the \<open>k\<close>-th call finds.
\<close>

theorem first_match_precedence:
  assumes all: "\<forall>s\<in>set stubs. \<exists>b. stubMatches ops req s = Inr b"
    and i: "i < length stubs"
    and hit: "stubMatches ops req (stubs ! i) = Inr True"
    and before: "\<forall>j<i. stubMatches ops req (stubs ! j) = Inr False"
  shows "\<exists>rs final.
     resolveEach resolver ops stubs (map (\<lambda>now. (now, req)) clock) = Inr (rs, final) \<and>
     length rs = length clock \<and>
     (\<forall>k<length clock.
        let pre = (stubs # map repository rs) ! k;
            d = fst (shift (responses (pre ! i)));
            rotated = push (snd (shift (responses (pre ! i)))) d
        in selected (rs ! k) = Some i \<and> stubResolver (rs ! k) = d \<and>
           promise (rs ! k) = resolver d req (pre[i := (pre ! i)\<lparr>responses := rotated\<rparr>]) \<and>
           (responses (stubs ! i) \<noteq> [] \<longrightarrow>
              responses (pre ! i) = rotate k (responses (stubs ! i))) \<and>
           length pre = length stubs \<and>
           (\<forall>j<length stubs. j \<noteq> i \<longrightarrow> pre ! j = stubs ! j)) \<and>
     length final = length stubs \<and>
     (\<forall>j<length stubs. j \<noteq> i \<longrightarrow> final ! j = stubs ! j)"
proof -
  let ?calls = "map (\<lambda>now. (now, req)) clock"
  have found: "findFirstMatch ops stubs req = Inr (Some (i, stubs ! i))"
    using findFirstMatch_Some [OF all i hit before] .
  then have "\<forall>(now, rq)\<in>set ?calls. \<exists>s. findFirstMatch ops stubs rq = Inr (Some (i, s))"
    by auto
  from resolveEach_steps [OF this i, of resolver]
  obtain rs final where run: "resolveEach resolver ops stubs ?calls = Inr (rs, final)"
    and len: "length rs = length ?calls"
    and steps: "\<forall>k<length ?calls.
        let pre = (stubs # map repository rs) ! k;
            d = fst (shift (responses (pre ! i)));
            rotated = push (snd (shift (responses (pre ! i)))) d
        in length pre = length stubs \<and>
           (\<forall>j<length stubs. j \<noteq> i \<longrightarrow> pre ! j = stubs ! j) \<and>
           (responses (stubs ! i) \<noteq> [] \<longrightarrow>
              responses (pre ! i) = rotate k (responses (stubs ! i))) \<and>
           selected (rs ! k) = Some i \<and> stubResolver (rs ! k) = d \<and>
           promise (rs ! k) =
             resolver d (snd (?calls ! k)) (pre[i := (pre ! i)\<lparr>responses := rotated\<rparr>])"
    and lenF: "length final = length stubs"
    and others: "\<forall>j<length stubs. j \<noteq> i \<longrightarrow> final ! j = stubs ! j"
    by blast
  have "let pre = (stubs # map repository rs) ! k;
            d = fst (shift (responses (pre ! i)));
            rotated = push (snd (shift (responses (pre ! i)))) d
        in selected (rs ! k) = Some i \<and> stubResolver (rs ! k) = d \<and>
           promise (rs ! k) = resolver d req (pre[i := (pre ! i)\<lparr>responses := rotated\<rparr>]) \<and>
           (responses (stubs ! i) \<noteq> [] \<longrightarrow>
              responses (pre ! i) = rotate k (responses (stubs ! i))) \<and>
           length pre = length stubs \<and>
           (\<forall>j<length stubs. j \<noteq> i \<longrightarrow> pre ! j = stubs ! j)"
    if "k < length clock" for k
  proof -
    from that have "snd (?calls ! k) = req" by simp
    with steps that show ?thesis by (simp add: Let_def)
  qed
  moreover from len have "length rs = length clock" by simp
  ultimately show ?thesis using run lenF others by blast
qed

text \<open>
  Two stubs match the request; two resolutions take the first stub's responses in
  turn and settle with them, and the second stub is untouched.
\<close>

theorem first_match_precedence_witness:
  "stubMatches specOperators (JObj [(''path'', JStr ''/a'')])
     \<lparr>predicates = Some [(''path'', JObj [(''equals'', JStr ''/a'')])],
      responses = [JStr ''first'', JStr ''again''], matches = None\<rparr> = Inr True \<and>
   stubMatches specOperators (JObj [(''path'', JStr ''/a'')])
     \<lparr>predicates = None, responses = [JStr ''second''], matches = None\<rparr> = Inr True \<and>
   (\<exists>rs final.
      resolveEach (\<lambda>descriptor req stubs. Inr descriptor) specOperators
        [\<lparr>predicates = Some [(''path'', JObj [(''equals'', JStr ''/a'')])],
          responses = [JStr ''first'', JStr ''again''], matches = None\<rparr>,
         \<lparr>predicates = None, responses = [JStr ''second''], matches = None\<rparr>]
        [(''t1'', JObj [(''path'', JStr ''/a'')]), (''t2'', JObj [(''path'', JStr ''/a'')])] =
        Inr (rs, final) \<and>
      map selected rs = [Some 0, Some 0] \<and>
      map stubResolver rs = [JStr ''first'', JStr ''again''] \<and>
      map promise rs = [Inr (JStr ''first''), Inr (JStr ''again'')] \<and>
      final ! 1 = \<lparr>predicates = None, responses = [JStr ''second''], matches = None\<rparr>)"
proof -
  let ?R = "JObj [(''path'', JStr ''/a'')]"
  let ?S1 = "\<lparr>predicates = Some [(''path'', JObj [(''equals'', JStr ''/a'')])],
      responses = [JStr ''first'', JStr ''again''], matches = None\<rparr>"
  let ?S2 = "\<lparr>predicates = None, responses = [JStr ''second''], matches = None\<rparr>"
  let ?echo = "\<lambda>descriptor (req :: json) (stubs :: stub list). Inr descriptor :: error + json"
  have m1: "stubMatches specOperators ?R ?S1 = Inr True" by (simp add: evaluation)
  have m2: "stubMatches specOperators ?R ?S2 = Inr True" by (simp add: evaluation)
  have all: "\<forall>s\<in>set [?S1, ?S2]. \<exists>b. stubMatches specOperators ?R s = Inr b"
    using m1 m2 by auto
  have hit: "stubMatches specOperators ?R ([?S1, ?S2] ! 0) = Inr True" using m1 by simp
  from first_match_precedence [of "[?S1, ?S2]" specOperators ?R 0 ?echo "[''t1'', ''t2'']",
      OF all _ hit]
  obtain rs final where run: "resolveEach ?echo specOperators [?S1, ?S2]
        [(''t1'', ?R), (''t2'', ?R)] = Inr (rs, final)"
    and len: "length rs = 2"
    and steps: "\<forall>k<2.
        let pre = ([?S1, ?S2] # map repository rs) ! k;
            d = fst (shift (responses (pre ! 0)))
        in selected (rs ! k) = Some 0 \<and> stubResolver (rs ! k) = d \<and>
           promise (rs ! k) = Inr d \<and>
           responses (pre ! 0) = rotate k [JStr ''first'', JStr ''again'']"
    and others: "\<forall>j<length [?S1, ?S2]. j \<noteq> 0 \<longrightarrow> final ! j = [?S1, ?S2] ! j"
    by (auto simp: Let_def)
  from len obtain a b where rs: "rs = [a, b]"
    by (auto simp: length_Suc_conv numeral_2_eq_2)
  from steps have s0: "selected a = Some 0 \<and> stubResolver a = JStr ''first'' \<and>
      promise a = Inr (JStr ''first'')"
    by (auto simp: rs Let_def shift_def dest: spec [of _ 0])
  from steps have s1: "selected b = Some 0 \<and> stubResolver b = JStr ''again'' \<and>
      promise b = Inr (JStr ''again'')"
    by (auto simp: rs Let_def shift_def dest!: spec [of _ 1])
  from others have other: "final ! 1 = ?S2" by simp
  show ?thesis
  proof (intro conjI)
    show "stubMatches specOperators ?R ?S1 = Inr True" by (rule m1)
    show "stubMatches specOperators ?R ?S2 = Inr True" by (rule m2)
    show "\<exists>rs final.
      resolveEach ?echo specOperators [?S1, ?S2] [(''t1'', ?R), (''t2'', ?R)] = Inr (rs, final) \<and>
      map selected rs = [Some 0, Some 0] \<and>
      map stubResolver rs = [JStr ''first'', JStr ''again''] \<and>
      map promise rs = [Inr (JStr ''first''), Inr (JStr ''again'')] \<and>
      final ! 1 = ?S2"
      using run s0 s1 other by (intro exI [of _ rs] exI [of _ final]) (simp add: rs)
  qed
qed

text \<open>
  The condition that every stub evaluates is needed: two stubs match the request,
  a third one is malformed, and the call throws instead of selecting the first.
\<close>

theorem first_match_malformed_later:
  "stubMatches specOperators (JObj [(''path'', JStr ''/a'')])
     \<lparr>predicates = Some [(''path'', JObj [(''equals'', JStr ''/a'')])],
      responses = [JStr ''first''], matches = None\<rparr> = Inr True \<and>
   stubMatches specOperators (JObj [(''path'', JStr ''/a'')])
     \<lparr>predicates = None, responses = [JStr ''second''], matches = None\<rparr> = Inr True \<and>
   resolve (\<lambda>descriptor req stubs. Inr descriptor) specOperators ''t1''
     [\<lparr>predicates = Some [(''path'', JObj [(''equals'', JStr ''/a'')])],
       responses = [JStr ''first''], matches = None\<rparr>,
      \<lparr>predicates = None, responses = [JStr ''second''], matches = None\<rparr>,
      \<lparr>predicates = Some [(''path'', JObj [(''bogus'', JNum 1)])],
       responses = [JStr ''third''], matches = None\<rparr>]
     (JObj [(''path'', JStr ''/a'')]) =
   Inl (ValidationError (noPredicate ''bogus'') (JObj [(''bogus'', JNum 1)]))"
  by (simp add: resolve_def findFirstMatch_def evaluation)

text \<open>
  Claim C4 (no-match fallback). With no stub at all, or when every stub's
  predicates evaluate to false for the request, \<open>resolve\<close> throws nothing: it selects
  the implicit stub, hands the descriptor \<open>{ is: {} }\<close> to the resolver, returns what
  the resolver settles with and leaves the repository as it was.
\<close>

theorem no_match_fallback:
  assumes "\<forall>s\<in>set stubs. stubMatches ops req s = Inr False"
  shows "\<exists>r. resolve resolver ops now stubs req = Inr r \<and> selected r = None \<and>
             stubResolver r = JObj [(''is'', JObj [])] \<and>
             promise r = resolver (JObj [(''is'', JObj [])]) req stubs \<and>
             repository r = stubs"
proof -
  from findFirstMatch_None [OF assms]
  have none: "findFirstMatch ops stubs req = Inr None" .
  show ?thesis
    by (cases "resolver (JObj [(''is'', JObj [])]) req stubs")
       (simp_all add: resolve_None [OF none])
qed

text \<open>The empty repository, and a repository whose only stub does not match.\<close>

theorem no_match_fallback_witness:
  "(\<exists>r. resolve (\<lambda>descriptor req stubs. Inr descriptor) specOperators ''t1'' []
           (JObj [(''path'', JStr ''/b'')]) = Inr r \<and>
        selected r = None \<and> promise r = Inr (JObj [(''is'', JObj [])]) \<and> repository r = []) \<and>
   stubMatches specOperators (JObj [(''path'', JStr ''/b'')])
     \<lparr>predicates = Some [(''path'', JObj [(''equals'', JStr ''/a'')])],
      responses = [JStr ''first''], matches = None\<rparr> = Inr False \<and>
   (\<exists>r. resolve (\<lambda>descriptor req stubs. Inr descriptor) specOperators ''t1''
           [\<lparr>predicates = Some [(''path'', JObj [(''equals'', JStr ''/a'')])],
             responses = [JStr ''first''], matches = None\<rparr>]
           (JObj [(''path'', JStr ''/b'')]) = Inr r \<and>
        selected r = None \<and> promise r = Inr (JObj [(''is'', JObj [])]) \<and>
        repository r =
          [\<lparr>predicates = Some [(''path'', JObj [(''equals'', JStr ''/a'')])],
            responses = [JStr ''first''], matches = None\<rparr>])"
proof -
  let ?R = "JObj [(''path'', JStr ''/b'')]"
  let ?S = "\<lparr>predicates = Some [(''path'', JObj [(''equals'', JStr ''/a'')])],
      responses = [JStr ''first''], matches = None\<rparr>"
  let ?echo = "\<lambda>descriptor (req :: json) (stubs :: stub list). Inr descriptor :: error + json"
  have miss: "stubMatches specOperators ?R ?S = Inr False" by (simp add: evaluation)
  have none: "\<forall>s\<in>set []. stubMatches specOperators ?R s = Inr False" by simp
  have one: "\<forall>s\<in>set [?S]. stubMatches specOperators ?R s = Inr False" using miss by simp
  from no_match_fallback [OF none, of ?echo "''t1''"]
  have a: "\<exists>r. resolve ?echo specOperators ''t1'' [] ?R = Inr r \<and>
        selected r = None \<and> promise r = Inr (JObj [(''is'', JObj [])]) \<and> repository r = []"
    by auto
  from no_match_fallback [OF one, of ?echo "''t1''"]
  have b: "\<exists>r. resolve ?echo specOperators ''t1'' [?S] ?R = Inr r \<and>
        selected r = None \<and> promise r = Inr (JObj [(''is'', JObj [])]) \<and> repository r = [?S]"
    by auto
  from a miss b show ?thesis by (intro conjI)
qed

text \<open>
  Claim C6 (every stub is evaluated). When a stub of the repository has
  a malformed predicate and what is evaluated before it (the stubs before that
  stub, the fields before that predicate, the keys before the offending key)
  evaluates to truth values, \<open>resolve\<close> throws a \<open>ValidationError\<close>, whether or not
  a stub before it matches the request. The error is thrown by the call itself: no
  promise is returned, so none is rejected.
\<close>

theorem malformed_stub_throws:
  assumes earlier: "\<forall>t\<in>set before. \<exists>b. stubMatches ops req t = Inr b"
    and fields: "predicates s = Some (pre @ (fieldName, node) # post)"
    and pre: "\<forall>p\<in>set pre. \<exists>b. (case p of (f, n) \<Rightarrow> matchesPredicate ops f n req) = Inr b"
    and node: "malformed ops req fieldName node"
  shows "\<exists>message source.
           resolve resolver ops now (before @ s # after) req =
           Inl (ValidationError message source)"
proof -
  from malformed_throws [OF node] obtain message source
    where "matchesPredicate ops fieldName node req = Inl (ValidationError message source)"
    by blast
  from stubMatches_first_error [OF fields pre this]
  have "stubMatches ops req s = Inl (ValidationError message source)" .
  from findFirstMatch_first_error [OF earlier this]
  have "findFirstMatch ops (before @ s # after) req = Inl (ValidationError message source)" .
  from resolve_Inl [OF this] show ?thesis by blast
qed

text \<open>
  The first stub matches the request validly. The second has a bogus key after an
  equality that fails, or an array under a nested field after a field that holds.
\<close>

theorem malformed_stub_throws_witness:
  "stubMatches specOperators (JObj [(''path'', JStr ''/a'')])
     \<lparr>predicates = Some [(''path'', JObj [(''equals'', JStr ''/a'')])],
      responses = [JStr ''first''], matches = None\<rparr> = Inr True \<and>
   malformed specOperators (JObj [(''path'', JStr ''/a'')]) ''path''
     (JObj [(''equals'', JStr ''/b''), (''bogus'', JNum 1)]) \<and>
   (\<exists>message source.
      resolve (\<lambda>descriptor req stubs. Inr descriptor) specOperators ''t1''
        [\<lparr>predicates = Some [(''path'', JObj [(''equals'', JStr ''/a'')])],
          responses = [JStr ''first''], matches = None\<rparr>,
         \<lparr>predicates = Some [(''path'', JObj [(''equals'', JStr ''/b''), (''bogus'', JNum 1)])],
          responses = [JStr ''second''], matches = None\<rparr>]
        (JObj [(''path'', JStr ''/a'')]) = Inl (ValidationError message source)) \<and>
   malformed specOperators (JObj [(''path'', JStr ''/a'')]) ''headers''
     (JObj [(''X-Test'', JArr [])]) \<and>
   (\<exists>message source.
      resolve (\<lambda>descriptor req stubs. Inr descriptor) specOperators ''t1''
        [\<lparr>predicates = Some [(''path'', JObj [(''equals'', JStr ''/a'')])],
          responses = [JStr ''first''], matches = None\<rparr>,
         \<lparr>predicates = Some [(''path'', JObj [(''equals'', JStr ''/a'')]),
                              (''headers'', JObj [(''X-Test'', JArr [])])],
          responses = [JStr ''second''], matches = None\<rparr>]
        (JObj [(''path'', JStr ''/a'')]) = Inl (ValidationError message source))"
proof -
  let ?R = "JObj [(''path'', JStr ''/a'')]"
  let ?S1 = "\<lparr>predicates = Some [(''path'', JObj [(''equals'', JStr ''/a'')])],
      responses = [JStr ''first''], matches = None\<rparr>"
  let ?N2 = "JObj [(''equals'', JStr ''/b''), (''bogus'', JNum 1)]"
  let ?S2 = "\<lparr>predicates = Some [(''path'', ?N2)],
          responses = [JStr ''second''], matches = None\<rparr>"
  let ?N3 = "JObj [(''X-Test'', JArr [])]"
  let ?S3 = "\<lparr>predicates = Some [(''path'', JObj [(''equals'', JStr ''/a'')]), (''headers'', ?N3)],
          responses = [JStr ''second''], matches = None\<rparr>"
  let ?echo = "\<lambda>descriptor (req :: json) (stubs :: stub list). Inr descriptor :: error + json"
  have m1: "stubMatches specOperators ?R ?S1 = Inr True" by (simp add: evaluation)
  have earlier: "\<forall>t\<in>set [?S1]. \<exists>b. stubMatches specOperators ?R t = Inr b"
    using m1 by auto
  have bad2: "malformed specOperators ?R ''path'' ?N2"
    using malformed.bogusKey [where before = "[(''equals'', JStr ''/b'')]" and key = "''bogus''"
        and arg = "JNum 1" and after = "[]" and fieldName = "''path''"
        and operators = specOperators and req = ?R]
    by (auto simp: evaluation)
  have f2: "predicates ?S2 = Some ([] @ (''path'', ?N2) # [])" by simp
  have bad3: "malformed specOperators ?R ''headers'' ?N3"
  proof -
    have "malformed specOperators ?R (''headers'' @ ''.'' @ ''X-Test'') (JArr [])"
      by (rule malformed.notObject) simp
    from malformed.nestedNode [where before = "[]" and key = "''X-Test''" and arg = "JArr []"
        and after = "[]" and fieldName = "''headers''" and operators = specOperators
        and req = ?R, OF _ _ _ this]
    show ?thesis by (simp add: specOperators_def)
  qed
  have f3: "predicates ?S3 =
      Some ([(''path'', JObj [(''equals'', JStr ''/a'')])] @ (''headers'', ?N3) # [])" by simp
  have pre3: "\<forall>p\<in>set [(''path'', JObj [(''equals'', JStr ''/a'')])].
      \<exists>b. (case p of (f, n) \<Rightarrow> matchesPredicate specOperators f n ?R) = Inr b"
    by (auto simp: evaluation)
  have r2: "\<exists>message source. resolve ?echo specOperators ''t1'' [?S1, ?S2] ?R =
       Inl (ValidationError message source)"
    using malformed_stub_throws [of "[?S1]" specOperators ?R ?S2 "[]" "''path''" ?N2 "[]"
        ?echo "''t1''" "[]", OF earlier f2 _ bad2] by simp
  have r3: "\<exists>message source. resolve ?echo specOperators ''t1'' [?S1, ?S3] ?R =
       Inl (ValidationError message source)"
    using malformed_stub_throws [of "[?S1]" specOperators ?R ?S3
        "[(''path'', JObj [(''equals'', JStr ''/a'')])]" "''headers''" ?N3 "[]"
        ?echo "''t1''" "[]", OF earlier f3 pre3 bad3] by simp
  from m1 bad2 r2 bad3 r3 show ?thesis by (intro conjI)
qed

text \<open>
  No promise is rejected: on a valid matching stub followed by a malformed one the
  call returns no resolution at all.
\<close>

theorem malformed_stub_no_promise:
  "resolve (\<lambda>descriptor req stubs. Inr descriptor) specOperators ''t1''
     [\<lparr>predicates = Some [(''path'', JObj [(''equals'', JStr ''/a'')])],
       responses = [JStr ''first''], matches = None\<rparr>,
      \<lparr>predicates = Some [(''path'', JObj [(''bogus'', JNum 1)])],
       responses = [JStr ''second''], matches = None\<rparr>]
     (JObj [(''path'', JStr ''/a'')]) =
   Inl (ValidationError (noPredicate ''bogus'') (JObj [(''bogus'', JNum 1)]))"
  by (simp add: resolve_def findFirstMatch_def evaluation)

subsection \<open>Predicates\<close>

text \<open>
  Claim C2 (exhaustive validation). In a predicate node, a key that names no
  operator and holds no object raises the \<open>ValidationError\<close> naming that key,
  whatever truth values the keys before it evaluated to and whatever follows it.
\<close>

theorem exhaustive_validation:
  assumes pre: "\<forall>p\<in>set pre. \<exists>b. evaluateKey ops f (JObj (pre @ (key, arg) # post)) req p = Inr b"
    and unknown: "ops key = None"
    and arg: "typeof arg \<noteq> ''object''"
  shows "matchesPredicate ops f (JObj (pre @ (key, arg) # post)) req =
         Inl (ValidationError (noPredicate key) (JObj (pre @ (key, arg) # post)))"
proof -
  let ?node = "JObj (pre @ (key, arg) # post)"
  have "evaluateKey ops f ?node req (key, arg) = Inl (ValidationError (noPredicate key) ?node)"
    using unknown arg by (simp add: evaluateKey_def)
  from trueForAll_first_error [OF pre this] show ?thesis
    by (simp only: matchesPredicate_JObj)
qed

text \<open>
  A node with an equality key and a bogus key: the error surfaces when the
  equality fails and when it holds.
\<close>

theorem exhaustive_validation_witness:
  "evaluateKey specOperators ''path''
     (JObj [(''equals'', JStr ''/b''), (''bogus'', JNum 1)])
     (JObj [(''path'', JStr ''/a'')]) (''equals'', JStr ''/b'') = Inr False \<and>
   matchesPredicate specOperators ''path''
     (JObj [(''equals'', JStr ''/b''), (''bogus'', JNum 1)])
     (JObj [(''path'', JStr ''/a'')]) =
   Inl (ValidationError (noPredicate ''bogus'')
          (JObj [(''equals'', JStr ''/b''), (''bogus'', JNum 1)])) \<and>
   evaluateKey specOperators ''path''
     (JObj [(''equals'', JStr ''/a''), (''bogus'', JNum 1)])
     (JObj [(''path'', JStr ''/a'')]) (''equals'', JStr ''/a'') = Inr True \<and>
   matchesPredicate specOperators ''path''
     (JObj [(''equals'', JStr ''/a''), (''bogus'', JNum 1)])
     (JObj [(''path'', JStr ''/a'')]) =
   Inl (ValidationError (noPredicate ''bogus'')
          (JObj [(''equals'', JStr ''/a''), (''bogus'', JNum 1)]))"
proof -
  let ?R = "JObj [(''path'', JStr ''/a'')]"
  let ?N = "\<lambda>lit. JObj [(''equals'', JStr lit), (''bogus'', JNum 1)]"
  have f: "evaluateKey specOperators ''path'' (?N ''/b'') ?R (''equals'', JStr ''/b'') = Inr False"
    by (simp add: evaluation)
  have t: "evaluateKey specOperators ''path'' (?N ''/a'') ?R (''equals'', JStr ''/a'') = Inr True"
    by (simp add: evaluation)
  have unknown: "specOperators ''bogus'' = None" by (simp add: specOperators_def)
  have arg: "typeof (JNum 1) \<noteq> ''object''" by simp
  have "matchesPredicate specOperators ''path''
          (JObj ([(''equals'', JStr ''/b'')] @ (''bogus'', JNum 1) # [])) ?R =
        Inl (ValidationError (noPredicate ''bogus'')
          (JObj ([(''equals'', JStr ''/b'')] @ (''bogus'', JNum 1) # [])))"
    using f unknown arg
    by (intro exhaustive_validation [where pre = "[(''equals'', JStr ''/b'')]" and post = "[]"])
       auto
  moreover have "matchesPredicate specOperators ''path''
          (JObj ([(''equals'', JStr ''/a'')] @ (''bogus'', JNum 1) # [])) ?R =
        Inl (ValidationError (noPredicate ''bogus'')
          (JObj ([(''equals'', JStr ''/a'')] @ (''bogus'', JNum 1) # [])))"
    using t unknown arg
    by (intro exhaustive_validation [where pre = "[(''equals'', JStr ''/a'')]" and post = "[]"])
       auto
  ultimately show ?thesis using f t by simp
qed

text \<open>
  Claim C7 (nested field addressing). A key that names no operator and holds an
  object is evaluated as that object under the field name extended by a dot and the
  key. With the equality operator of the specification, the stub predicate
  \<open>{"headers": {"equals": {"X-Test": "a"}}}\<close> matches the request
  \<open>{"headers": {"X-Test": "a"}}\<close> and does not match when the value is \<open>"b"\<close>.
\<close>

theorem nested_field_addressing:
  "(ops key = None \<longrightarrow>
      evaluateKey ops f node req (key, JObj sub) =
        matchesPredicate ops (f @ ''.'' @ key) (JObj sub) req \<and>
      matchesPredicate ops f (JObj [(key, JObj sub)]) req =
        matchesPredicate ops (f @ ''.'' @ key) (JObj sub) req) \<and>
   stubMatches specOperators (JObj [(''headers'', JObj [(''X-Test'', JStr ''a'')])])
     \<lparr>predicates = Some [(''headers'', JObj [(''equals'', JObj [(''X-Test'', JStr ''a'')])])],
      responses = rs, matches = ms\<rparr> = Inr True \<and>
   stubMatches specOperators (JObj [(''headers'', JObj [(''X-Test'', JStr ''b'')])])
     \<lparr>predicates = Some [(''headers'', JObj [(''equals'', JObj [(''X-Test'', JStr ''a'')])])],
      responses = rs, matches = ms\<rparr> = Inr False"
proof -
  have one: "evaluateKey ops f node req (key, JObj sub) =
        matchesPredicate ops (f @ ''.'' @ key) (JObj sub) req" if "ops key = None" for node
    using that by (simp add: evaluateKey_def)
  have two: "matchesPredicate ops f (JObj [(key, JObj sub)]) req =
        matchesPredicate ops (f @ ''.'' @ key) (JObj sub) req" if "ops key = None"
    by (simp add: matchesPredicate_JObj [of ops f] trueForAll_def one [OF that] split: sum.splits)
  have three: "stubMatches specOperators (JObj [(''headers'', JObj [(''X-Test'', JStr ''a'')])])
     \<lparr>predicates = Some [(''headers'', JObj [(''equals'', JObj [(''X-Test'', JStr ''a'')])])],
      responses = rs, matches = ms\<rparr> = Inr True"
    by (simp add: evaluation)
  have four: "stubMatches specOperators (JObj [(''headers'', JObj [(''X-Test'', JStr ''b'')])])
     \<lparr>predicates = Some [(''headers'', JObj [(''equals'', JObj [(''X-Test'', JStr ''a'')])])],
      responses = rs, matches = ms\<rparr> = Inr False"
    by (simp add: evaluation)
  from one two three four show ?thesis by blast
qed

text \<open>
  The node \<open>{"X-Test": {"equals": "a"}}\<close> under the field \<open>headers\<close> is the node
  \<open>{"equals": "a"}\<close> under \<open>headers.X-Test\<close>, which holds for the request.
\<close>

theorem nested_field_addressing_witness:
  "specOperators ''X-Test'' = None \<and>
   matchesPredicate specOperators ''headers'' (JObj [(''X-Test'', JObj [(''equals'', JStr ''a'')])])
     (JObj [(''headers'', JObj [(''X-Test'', JStr ''a'')])]) =
   matchesPredicate specOperators ''headers.X-Test'' (JObj [(''equals'', JStr ''a'')])
     (JObj [(''headers'', JObj [(''X-Test'', JStr ''a'')])]) \<and>
   matchesPredicate specOperators ''headers.X-Test'' (JObj [(''equals'', JStr ''a'')])
     (JObj [(''headers'', JObj [(''X-Test'', JStr ''a'')])]) = Inr True"
proof -
  have unknown: "specOperators ''X-Test'' = None" by (simp add: specOperators_def)
  have "matchesPredicate specOperators ''headers.X-Test'' (JObj [(''equals'', JStr ''a'')])
     (JObj [(''headers'', JObj [(''X-Test'', JStr ''a'')])]) = Inr True"
    by (simp add: evaluation)
  with unknown nested_field_addressing [of specOperators "''X-Test''" "''headers''" JNull
      "JObj [(''headers'', JObj [(''X-Test'', JStr ''a'')])]" "[(''equals'', JStr ''a'')]" "[]" None]
  show ?thesis by simp
qed

text \<open>
  Claim C8 (a predicate that is no object). The guard of \<open>matchesPredicate\<close> lets
  \<open>null\<close> through: a stub whose predicate for \<open>path\<close> is \<open>null\<close> makes \<open>resolve\<close> fail
  with the \<open>TypeError\<close> of \<open>Object.keys\<close>, not with a \<open>ValidationError\<close>.
\<close>

theorem null_predicate_type_error:
  "resolve (\<lambda>descriptor req stubs. Inr descriptor) specOperators ''2014-01-01T00:00:00.000Z''
     [\<lparr>predicates = Some [(''path'', JNull)], responses = [JObj [(''is'', JObj [])]],
       matches = None\<rparr>]
     (JObj [(''path'', JStr ''/a'')]) =
   Inl (TypeError ''Object.keys called on non-object'')"
  by (simp add: resolve_def findFirstMatch_def evaluation)

subsection \<open>Rotation and recording\<close>

text \<open>
  Claim C3 (round robin). When every call of a sequence selects stub \<open>i\<close>, whose
  queue \<open>q\<close> is not empty, the descriptors used are \<open>q\<close> read cyclically from its
  head, the queue after the calls is \<open>q\<close> rotated by their number, and after
  \<open>length q\<close> calls it is \<open>q\<close> again.
\<close>

theorem round_robin:
  assumes "\<forall>(now, rq)\<in>set calls. \<exists>s. findFirstMatch ops stubs rq = Inr (Some (i, s))"
    and "i < length stubs" and "responses (stubs ! i) = q" and "q \<noteq> []"
  shows "\<exists>rs final.
           resolveEach resolver ops stubs calls = Inr (rs, final) \<and>
           map stubResolver rs = map (\<lambda>n. q ! (n mod length q)) [0..<length calls] \<and>
           responses (final ! i) = rotate (length calls) q \<and>
           (length calls = length q \<longrightarrow> responses (final ! i) = q)"
proof -
  from resolveEach_same_stub [OF assms, of resolver]
  obtain rs final where run: "resolveEach resolver ops stubs calls = Inr (rs, final)"
    and desc: "map stubResolver rs = map (\<lambda>n. q ! (n mod length q)) [0..<length calls]"
    and resp: "responses (final ! i) = rotate (length calls) q"
    by blast
  have "responses (final ! i) = q" if "length calls = length q"
    using resp that by simp
  with run desc resp show ?thesis by blast
qed

text \<open>The queue \<open>[A, B, C]\<close> resolved four times gives \<open>A, B, C, A\<close>.\<close>

theorem round_robin_witness:
  "\<exists>rs final.
      resolveEach (\<lambda>descriptor req stubs. Inr descriptor) specOperators
        [\<lparr>predicates = None, responses = [JStr ''A'', JStr ''B'', JStr ''C''], matches = None\<rparr>]
        [(''t1'', JNull), (''t2'', JNull), (''t3'', JNull), (''t4'', JNull)] = Inr (rs, final) \<and>
      map stubResolver rs = [JStr ''A'', JStr ''B'', JStr ''C'', JStr ''A''] \<and>
      responses (final ! 0) = [JStr ''B'', JStr ''C'', JStr ''A'']"
proof -
  let ?S = "\<lparr>predicates = None, responses = [JStr ''A'', JStr ''B'', JStr ''C''], matches = None\<rparr>"
  let ?calls = "[(''t1'', JNull), (''t2'', JNull), (''t3'', JNull), (''t4'', JNull)]"
  have sel: "\<forall>(now, rq)\<in>set ?calls. \<exists>s. findFirstMatch specOperators [?S] rq = Inr (Some (0, s))"
    by (simp add: findFirstMatch_def evaluation)
  from round_robin [of ?calls specOperators "[?S]" 0 "[JStr ''A'', JStr ''B'', JStr ''C'']"
      "\<lambda>descriptor req stubs. Inr descriptor", OF sel]
  show ?thesis by simp
qed

text \<open>
  Claim C5 (recording). A call that reaches the resolver appends one record
  \<open>{ timestamp, request, response }\<close> with the request and the response to the
  history of the selected stub when the resolver succeeds, and leaves that history
  as it was when the resolver fails; the promise settles as the resolver's promise
  did; no other stub of the repository changes.
\<close>

theorem match_recording:
  assumes "resolve resolver ops now stubs req = Inr r"
  shows "(let before = (case selected r of Some i \<Rightarrow> stubs ! i | None \<Rightarrow> implicitStub) in
            (case promise r of
               Inr resp \<Rightarrow>
                 matches (selectedStub r) =
                   Some (matchesOrEmpty before @
                         [\<lparr>timestamp = now, request = req, response = resp\<rparr>])
             | Inl failure \<Rightarrow> matches (selectedStub r) = matches before) \<and>
            promise r =
              resolver (stubResolver r) req
                (case selected r of
                   Some i \<Rightarrow> stubs[i := before\<lparr>responses :=
                       push (snd (shift (responses before))) (fst (shift (responses before)))\<rparr>]
                 | None \<Rightarrow> stubs)) \<and>
         length (repository r) = length stubs \<and>
         (\<forall>k<length stubs.
            if selected r = Some k then repository r ! k = selectedStub r
            else repository r ! k = stubs ! k)"
proof (cases rule: findFirstMatch_cases [of ops stubs req])
  case (thrown e)
  with assms show ?thesis by (simp add: resolve_Inl)
next
  case none
  show ?thesis
  proof (cases "resolver (JObj [(''is'', JObj [])]) req stubs")
    case (Inl failure)
    with assms resolve_None [OF none, of resolver now]
    have "r = \<lparr>promise = Inl failure, stubResolver = JObj [(''is'', JObj [])], selected = None,
               selectedStub = implicitStub, repository = stubs\<rparr>" by simp
    with Inl show ?thesis by simp
  next
    case (Inr resp)
    with assms resolve_None [OF none, of resolver now]
    have "r = \<lparr>promise = Inr resp, stubResolver = JObj [(''is'', JObj [])], selected = None,
               selectedStub = implicitStub\<lparr>matches :=
                 Some [\<lparr>timestamp = now, request = req, response = resp\<rparr>]\<rparr>,
               repository = stubs\<rparr>" by simp
    with Inr show ?thesis by (simp add: implicitStub_def matchesOrEmpty_def)
  qed
next
  case (some i s)
  from findFirstMatch_Some_D [OF some] have i: "i < length stubs" and s: "s = stubs ! i"
    by simp_all
  define d where "d = fst (shift (responses s))"
  define s1 where "s1 = s\<lparr>responses := push (snd (shift (responses s))) d\<rparr>"
  show ?thesis
  proof (cases "resolver d req (stubs[i := s1])")
    case (Inl failure)
    with assms resolve_Some_any [OF some, of resolver now]
    have "r = \<lparr>promise = Inl failure, stubResolver = d, selected = Some i,
               selectedStub = s1, repository = stubs[i := s1]\<rparr>"
      by (simp add: d_def s1_def Let_def)
    with Inl i s show ?thesis by (simp add: d_def s1_def nth_list_update)
  next
    case (Inr resp)
    with assms resolve_Some_any [OF some, of resolver now]
    have "r = \<lparr>promise = Inr resp, stubResolver = d, selected = Some i,
               selectedStub = s1\<lparr>matches := Some (matchesOrEmpty s @
                                  [\<lparr>timestamp = now, request = req, response = resp\<rparr>])\<rparr>,
               repository = stubs[i := s1\<lparr>matches := Some (matchesOrEmpty s @
                                  [\<lparr>timestamp = now, request = req, response = resp\<rparr>])\<rparr>]\<rparr>"
      by (simp add: d_def s1_def Let_def)
    with Inr i s show ?thesis by (simp add: d_def s1_def nth_list_update)
  qed
qed

text \<open>A resolver that echoes the descriptor, and one that fails.\<close>

theorem match_recording_witness:
  "(\<exists>r. resolve (\<lambda>descriptor req stubs. Inr descriptor) specOperators ''t1''
           [\<lparr>predicates = None, responses = [JStr ''A'', JStr ''B''], matches = None\<rparr>]
           (JObj [(''path'', JStr ''/a'')]) = Inr r \<and>
        promise r = Inr (JStr ''A'') \<and>
        matches (selectedStub r) =
          Some [\<lparr>timestamp = ''t1'', request = JObj [(''path'', JStr ''/a'')],
                 response = JStr ''A''\<rparr>] \<and>
        repository r = [selectedStub r]) \<and>
   (\<exists>r. resolve (\<lambda>descriptor req stubs. Inl (OtherError ''unreachable'')) specOperators ''t1''
           [\<lparr>predicates = None, responses = [JStr ''A'', JStr ''B''], matches = None\<rparr>]
           (JObj [(''path'', JStr ''/a'')]) = Inr r \<and>
        promise r = Inl (OtherError ''unreachable'') \<and>
        matches (selectedStub r) = None \<and>
        repository r = [selectedStub r])"
proof -
  let ?R = "JObj [(''path'', JStr ''/a'')]"
  let ?S = "\<lparr>predicates = None, responses = [JStr ''A'', JStr ''B''], matches = None\<rparr>"
  let ?echo = "\<lambda>descriptor (req :: json) (stubs :: stub list). Inr descriptor :: error + json"
  let ?down = "\<lambda>(descriptor :: json) (req :: json) (stubs :: stub list).
                 Inl (OtherError ''unreachable'') :: error + json"
  obtain r where r: "resolve ?echo specOperators ''t1'' [?S] ?R = Inr r"
    and r1: "selected r = Some 0" "stubResolver r = JStr ''A''"
    by (simp add: running evaluation)
  from match_recording [OF r] r1
  have a: "promise r = Inr (JStr ''A'') \<and>
        matches (selectedStub r) =
          Some [\<lparr>timestamp = ''t1'', request = ?R, response = JStr ''A''\<rparr>] \<and>
        repository r = [selectedStub r]"
    by (auto simp: Let_def shift_def push_def matchesOrEmpty_def length_Suc_conv
             split: sum.splits)
  obtain r' where r': "resolve ?down specOperators ''t1'' [?S] ?R = Inr r'"
    and r1': "selected r' = Some 0" "stubResolver r' = JStr ''A''"
    by (simp add: running evaluation)
  from match_recording [OF r'] r1'
  have b: "promise r' = Inl (OtherError ''unreachable'') \<and>
        matches (selectedStub r') = None \<and> repository r' = [selectedStub r']"
    by (auto simp: Let_def shift_def push_def matchesOrEmpty_def length_Suc_conv
             split: sum.splits)
  from r a r' b show ?thesis by blast
qed

text \<open>
  Claim C9 (rotation precedes resolution). The resolver is called with the
  repository in which the selected stub's queue is already rotated, and when it
  fails the queue stays rotated while the history is unchanged.
\<close>

theorem rotation_before_resolution:
  assumes found: "findFirstMatch ops stubs req = Inr (Some (i, s))"
    and queue: "responses s = d # rest"
  shows "\<exists>r. resolve resolver ops now stubs req = Inr r \<and>
             promise r = resolver d req (stubs[i := s\<lparr>responses := rest @ [d]\<rparr>]) \<and>
             responses (repository r ! i) = rest @ [d] \<and>
             (\<forall>failure. promise r = Inl failure \<longrightarrow>
                repository r = stubs[i := s\<lparr>responses := rest @ [d]\<rparr>] \<and>
                matches (repository r ! i) = matches (stubs ! i))"
proof -
  from findFirstMatch_Some_D [OF found] have i: "i < length stubs" and s: "s = stubs ! i"
    by simp_all
  show ?thesis
  proof (cases "resolver d req (stubs[i := s\<lparr>responses := rest @ [d]\<rparr>])")
    case (Inl failure)
    with resolve_Some [OF found queue, of resolver now] i s show ?thesis by simp
  next
    case (Inr resp)
    with resolve_Some [OF found queue, of resolver now] i s show ?thesis by simp
  qed
qed

text \<open>After a failed resolution the queue \<open>[A, B, C]\<close> is \<open>[B, C, A]\<close>.\<close>

theorem rotation_before_resolution_witness:
  "\<exists>r. resolve (\<lambda>descriptor req stubs. Inl (OtherError ''unreachable'')) specOperators ''t1''
          [\<lparr>predicates = None, responses = [JStr ''A'', JStr ''B'', JStr ''C''],
            matches = None\<rparr>]
          (JObj [(''path'', JStr ''/a'')]) = Inr r \<and>
       promise r = Inl (OtherError ''unreachable'') \<and>
       repository r =
         [\<lparr>predicates = None, responses = [JStr ''B'', JStr ''C'', JStr ''A''],
           matches = None\<rparr>]"
proof -
  let ?R = "JObj [(''path'', JStr ''/a'')]"
  let ?S = "\<lparr>predicates = None, responses = [JStr ''A'', JStr ''B'', JStr ''C''],
            matches = None\<rparr>"
  have found: "findFirstMatch specOperators [?S] ?R = Inr (Some (0, ?S))"
    by (simp add: findFirstMatch_def evaluation)
  have queue: "responses ?S = JStr ''A'' # [JStr ''B'', JStr ''C'']" by simp
  from rotation_before_resolution [OF found queue,
      of "\<lambda>descriptor req stubs. Inl (OtherError ''unreachable'')" "''t1''"]
  show ?thesis by auto
qed

subsection \<open>Calls that overlap\<close>

text \<open>
  \<open>resolve\<close> is its first part followed, when the resolver's promise has settled,
  by its callback.
\<close>

lemma resolve_start_settle:
  "resolve resolver ops now stubs req =
     (case start ops stubs req of
        Inl e \<Rightarrow> Inl e
      | Inr (c, stubs1) \<Rightarrow>
          Inr (settle now c (resolver (callDescriptor c) req stubs1) stubs1))"
proof (cases rule: findFirstMatch_cases [of ops stubs req])
  case (thrown e)
  then show ?thesis by (simp add: resolve_def start_def)
next
  case none
  show ?thesis
    by (cases "resolver (JObj [(''is'', JObj [])]) req stubs")
       (simp_all add: resolve_def start_def settle_def store_def Let_def none
          implicitStub_def shift_def push_def)
next
  case (some i s)
  from findFirstMatch_Some_D [OF some] have i: "i < length stubs" by simp
  obtain d rest where sh: "shift (responses s) = (d, rest)" by (cases "shift (responses s)")
  show ?thesis
    by (cases "resolver d req (stubs[i := s\<lparr>responses := push rest d\<rparr>])")
       (simp_all add: resolve_def start_def settle_def store_def Let_def some sh i)
qed

text \<open>
  Claim C10 (rotation is indivisible). Whatever the order in which calls start,
  pending promises settle and stubs are added, the descriptors handed to the calls
  on a stub with a queue \<open>q\<close> that is not empty are \<open>q\<close> read cyclically, one position
  per call in the order of the calls, and the queue is \<open>q\<close> rotated by the number of
  those calls: no position is handed out twice in a cycle, none is skipped. Shift
  and push both belong to the first part of \<open>resolve\<close>, which no other event
  divides.
\<close>

theorem rotation_indivisible:
  assumes "i < length stubs" and "responses (stubs ! i) = q" and "q \<noteq> []"
  shows "let w = run ops \<lparr>repo = stubs, pendingCalls = [], startedCalls = []\<rparr> events;
             n = length (issued i w)
         in issued i w = map (\<lambda>k. q ! (k mod length q)) [0..<n] \<and>
            responses (repo w ! i) = rotate n q"
proof -
  let ?w0 = "\<lparr>repo = stubs, pendingCalls = [], startedCalls = []\<rparr>"
  have "issued i ?w0 = map (\<lambda>k. q ! (k mod length q)) [0..<length (issued i ?w0)]"
    by (simp add: issued_def)
  moreover have "responses (repo ?w0 ! i) = rotate (length (issued i ?w0)) q"
    using assms(2) by (simp add: issued_def)
  moreover have "i < length (repo ?w0)" using assms(1) by simp
  ultimately show ?thesis
    using run_rotation [OF assms(3), of i ?w0 ops events] by (simp add: Let_def)
qed

text \<open>
  Four calls on the queue \<open>[A, B, C]\<close>; the second settles before the third starts,
  the first fails before the fourth starts, the last two are still pending.
\<close>

theorem rotation_indivisible_witness:
  "issued 0
     (run specOperators
        \<lparr>repo = [\<lparr>predicates = None, responses = [JStr ''A'', JStr ''B'', JStr ''C''],
                   matches = None\<rparr>],
         pendingCalls = [], startedCalls = []\<rparr>
        [Start JNull, Start JNull, Settle 1 ''t1'' (Inr (JStr ''B'')), Start JNull,
         Settle 0 ''t2'' (Inl (OtherError ''unreachable'')), Start JNull]) =
   [JStr ''A'', JStr ''B'', JStr ''C'', JStr ''A''] \<and>
   responses
     (repo
        (run specOperators
           \<lparr>repo = [\<lparr>predicates = None, responses = [JStr ''A'', JStr ''B'', JStr ''C''],
                      matches = None\<rparr>],
            pendingCalls = [], startedCalls = []\<rparr>
           [Start JNull, Start JNull, Settle 1 ''t1'' (Inr (JStr ''B'')), Start JNull,
            Settle 0 ''t2'' (Inl (OtherError ''unreachable'')), Start JNull]) ! 0) =
   [JStr ''B'', JStr ''C'', JStr ''A'']"
proof -
  let ?S = "\<lparr>predicates = None, responses = [JStr ''A'', JStr ''B'', JStr ''C''],
             matches = None\<rparr>"
  let ?w0 = "\<lparr>repo = [?S], pendingCalls = [], startedCalls = []\<rparr>"
  let ?events = "[Start JNull, Start JNull, Settle 1 ''t1'' (Inr (JStr ''B'')), Start JNull,
         Settle 0 ''t2'' (Inl (OtherError ''unreachable'')), Start JNull]"
  have n: "length (issued 0 (run specOperators ?w0 ?events)) = 4"
    by (simp add: run_def start_def settle_def issued_def running evaluation)
  have four: "(4::nat) = Suc (Suc (Suc (Suc 0)))" by simp
  from rotation_indivisible [of 0 "[?S]" "[JStr ''A'', JStr ''B'', JStr ''C'']"
      specOperators ?events]
  have "issued 0 (run specOperators ?w0 ?events) =
          map (\<lambda>k. [JStr ''A'', JStr ''B'', JStr ''C''] ! (k mod 3)) [0..<Suc (Suc (Suc (Suc 0)))] \<and>
        responses (repo (run specOperators ?w0 ?events) ! 0) =
          rotate (Suc (Suc (Suc (Suc 0)))) [JStr ''A'', JStr ''B'', JStr ''C'']"
    unfolding Let_def n four by simp
  then show ?thesis by simp
qed

end
